theory Spec2Isabelle
  imports Main "HOL-Library.Word" "HOL-Library.Signed_Division" "HOL-Library.Multiset"
begin

unbundle bit_operations_syntax

section \<open>ZooFUSE: a ZooKeeper tree behind a FUSE file system\<close>

text \<open>
  A shallow embedding of \<^verbatim>\<open>fuse.go\<close>, \<^verbatim>\<open>fusefile.go\<close> and \<^verbatim>\<open>zookeeper.go\<close>.
  Go's \<^verbatim>\<open>int\<close> is taken to be 64 bits wide (linux/amd64, where FUSE runs). Byte
  slices are lists of 8-bit words, Go strings are \<^typ>\<open>string\<close> (lists of bytes), and a
  Go \<^verbatim>\<open>error\<close> value is represented by its message.
\<close>

subsection \<open>Data model\<close>

type_synonym byte = "8 word"
type_synonym bytes = "byte list"
type_synonym error = string

text \<open>The values of \<^verbatim>\<open>fuse.Status\<close> that go-fuse names; the adapter returns the first
  five of them.\<close>

datatype Status = OK | EPERM | ENOENT | EIO | ENOTDIR | EINVAL

text \<open>Run-time panics of Go that the modelled code can reach.\<close>

datatype panic = SliceBoundsOutOfRange | NilPointerDereference

text \<open>\<^verbatim>\<open>zk.Stat\<close>: the fields the adapter reads. \<^verbatim>\<open>DataLength\<close> and \<^verbatim>\<open>NumChildren\<close> are
  \<^verbatim>\<open>int32\<close>, the two time stamps \<^verbatim>\<open>int64\<close> (milliseconds).\<close>

record Stat =
  Ctime :: int
  Mtime :: int
  DataLength :: int
  NumChildren :: int

text \<open>\<^verbatim>\<open>fuse.DirEntry\<close>: a name and the file type bits.\<close>

record DirEntry =
  Name :: string
  Mode :: "32 word"

record fuse_Owner =
  Uid :: "32 word"
  Gid :: "32 word"

text \<open>\<^verbatim>\<open>fuse.Attr\<close>: the fields the adapter writes; the others keep Go's zero value.\<close>

record Attr =
  Size :: "64 word"
  Atime :: "64 word"
  Mtime :: "64 word"
  Ctime :: "64 word"
  Mode :: "32 word"
  Owner :: fuse_Owner

definition zeroOwner :: fuse_Owner where
  "zeroOwner = \<lparr>Uid = 0, Gid = 0\<rparr>"

definition zeroAttr :: Attr where
  "zeroAttr = \<lparr>Size = 0, Atime = 0, Mtime = 0, Ctime = 0, Mode = 0, Owner = zeroOwner\<rparr>"

text \<open>File type bits of \<^verbatim>\<open>syscall\<close> (octal 040000 and 0100000) and the permission masks
  of \<^verbatim>\<open>fuse.go\<close> (octal 0755, 0555, 0644, 0444).\<close>

definition S_IFDIR :: "32 word" where "S_IFDIR = 16384"
definition S_IFREG :: "32 word" where "S_IFREG = 32768"

definition IfDirRW :: "32 word" where "IfDirRW = 493"
definition IfDirRO :: "32 word" where "IfDirRO = 365"
definition IfRegRW :: "32 word" where "IfRegRW = 420"
definition IfRegRO :: "32 word" where "IfRegRO = 292"

definition MaxConcurrentRequests :: nat where "MaxConcurrentRequests = 25"

definition MaxZnodeData :: nat where "MaxZnodeData = 1048576"

definition dirPermissions :: "bool \<Rightarrow> 32 word" where
  "dirPermissions isReadWrite = (if isReadWrite then IfDirRW else IfDirRO)"

definition filePermissions :: "bool \<Rightarrow> 32 word" where
  "filePermissions isReadWrite = (if isReadWrite then IfRegRW else IfRegRO)"

subsection \<open>Strings and paths: the Go library functions the code calls\<close>

text \<open>\<^verbatim>\<open>strings.HasSuffix\<close>, \<^verbatim>\<open>strings.Join\<close> and \<^verbatim>\<open>strings.Count\<close> (of a single byte).\<close>

definition strings_HasSuffix :: "string \<Rightarrow> string \<Rightarrow> bool" where
  "strings_HasSuffix s suffix =
     (length s \<ge> length suffix \<and> drop (length s - length suffix) s = suffix)"

fun strings_Join :: "string list \<Rightarrow> string \<Rightarrow> string" where
  "strings_Join [] sep = []"
| "strings_Join [e] sep = e"
| "strings_Join (e # es) sep = e @ sep @ strings_Join es sep"

definition strings_Count :: "string \<Rightarrow> char \<Rightarrow> nat" where
  "strings_Count s c = length (filter (\<lambda>x. x = c) s)"

text \<open>
  \<^verbatim>\<open>path/filepath\<close> on Unix: the separator is \<open>/\<close>, there are no volume names.
  \<^verbatim>\<open>Clean\<close> reads the path from the left and writes into a buffer \<open>out\<close> (its first
  \<open>w\<close> bytes are the list \<open>out\<close> here); \<open>dotdot\<close> is the index in the buffer where
  a \<open>..\<close> element must stop backtracking. \<open>backtrack\<close> is the inner loop of the
  \<open>..\<close> case, after the first \<^verbatim>\<open>out.w--\<close>: it moves \<open>w\<close> left to the last
  separator, reading the bytes still in the buffer.
\<close>

function backtrack :: "string \<Rightarrow> nat \<Rightarrow> nat \<Rightarrow> nat" where
  "backtrack buf dotdot w =
     (if w > dotdot \<and> buf ! w \<noteq> CHR ''/'' then backtrack buf dotdot (w - 1) else w)"
  by pat_completeness auto
termination
  by (relation "measure (\<lambda>(buf, dotdot, w). w)") auto

declare backtrack.simps [simp del]

function cleanLoop :: "bool \<Rightarrow> string \<Rightarrow> string \<Rightarrow> nat \<Rightarrow> string" where
  "cleanLoop rooted [] out dotdot = out"
| "cleanLoop rooted (c # cs) out dotdot =
     (if c = CHR ''/'' then cleanLoop rooted cs out dotdot
      else if c = CHR ''.'' \<and> (cs = [] \<or> take 1 cs = ''/'') then cleanLoop rooted cs out dotdot
      else if c = CHR ''.'' \<and> take 1 cs = ''.'' \<and> (drop 1 cs = [] \<or> take 1 (drop 1 cs) = ''/'') then
        (if length out > dotdot
         then cleanLoop rooted (drop 1 cs) (take (backtrack out dotdot (length out - 1)) out) dotdot
         else if \<not> rooted
         then (let out' = (if length out > 0 then out @ ''/'' else out) @ ''..''
               in cleanLoop rooted (drop 1 cs) out' (length out'))
         else cleanLoop rooted (drop 1 cs) out dotdot)
      else (let out' = (if rooted \<and> length out \<noteq> 1 \<or> \<not> rooted \<and> length out \<noteq> 0
                        then out @ ''/'' else out)
            in cleanLoop rooted (dropWhile (\<lambda>x. x \<noteq> CHR ''/'') (c # cs))
                 (out' @ takeWhile (\<lambda>x. x \<noteq> CHR ''/'') (c # cs)) dotdot))"
  by pat_completeness auto
termination
proof (relation "measure (\<lambda>(rooted, p, out, dotdot). length p)", goal_cases)
  case (7 rooted c cs out dotdot x)
  have "length (dropWhile (\<lambda>x. x \<noteq> CHR ''/'') cs) \<le> length cs"
    by (rule length_dropWhile_le)
  with 7(1) show ?case by simp
qed simp_all

declare cleanLoop.simps [simp del]

definition filepath_Clean :: "string \<Rightarrow> string" where
  "filepath_Clean p =
     (if p = [] then ''.''
      else let rooted = (take 1 p = ''/'');
               out = (if rooted then cleanLoop True (drop 1 p) ''/'' 1
                      else cleanLoop False p [] 0)
           in if out = [] then ''.'' else out)"

text \<open>\<^verbatim>\<open>filepath.Join\<close>: the elements from the first non-empty one on, joined by the
  separator and cleaned; the empty string when every element is empty.\<close>

fun filepath_Join :: "string list \<Rightarrow> string" where
  "filepath_Join [] = []"
| "filepath_Join (e # es) =
     (if e \<noteq> [] then filepath_Clean (strings_Join (e # es) ''/'') else filepath_Join es)"

text \<open>
  \<^verbatim>\<open>filepath.Rel\<close>. Its loop positions \<open>base[b0:bi]\<close> and \<open>targ[t0:ti]\<close> at the first
  elements that differ. \<open>relLoop\<close> is that loop on the rests \<open>base[b0:]\<close> and
  \<open>targ[t0:]\<close>; it returns the two rests and the element \<open>base[b0:bi]\<close>, which is
  empty when the loop ends because one path is used up.
\<close>

function relLoop :: "string \<Rightarrow> string \<Rightarrow> string \<times> string \<times> string" where
  "relLoop b t =
     (if b \<noteq> [] \<and> t \<noteq> []
      then (if takeWhile (\<lambda>x. x \<noteq> CHR ''/'') t \<noteq> takeWhile (\<lambda>x. x \<noteq> CHR ''/'') b
            then (b, t, takeWhile (\<lambda>x. x \<noteq> CHR ''/'') b)
            else relLoop (drop 1 (dropWhile (\<lambda>x. x \<noteq> CHR ''/'') b))
                         (drop 1 (dropWhile (\<lambda>x. x \<noteq> CHR ''/'') t)))
      else (b, t, []))"
  by pat_completeness auto
termination
proof (relation "measure (\<lambda>(b, t). length b)")
  show "wf (measure (\<lambda>(b, t). length b))"
    by simp
next
  fix b t :: string
  assume "b \<noteq> [] \<and> t \<noteq> []"
  then obtain c cs where b: "b = c # cs"
    by (cases b) auto
  have "length (drop 1 (dropWhile (\<lambda>x. x \<noteq> CHR ''/'') (c # cs))) < length (c # cs)"
  proof (cases "c = CHR ''/''")
    case True
    then show ?thesis by simp
  next
    case False
    have "length (dropWhile (\<lambda>x. x \<noteq> CHR ''/'') cs) \<le> length cs"
      by (rule length_dropWhile_le)
    with False show ?thesis by simp
  qed
  with b show "((drop 1 (dropWhile (\<lambda>x. x \<noteq> CHR ''/'') b),
                 drop 1 (dropWhile (\<lambda>x. x \<noteq> CHR ''/'') t)), (b, t))
               \<in> measure (\<lambda>(b, t). length b)"
    by simp
qed

declare relLoop.simps [simp del]

definition filepath_Rel :: "string \<Rightarrow> string \<Rightarrow> error + string" where
  "filepath_Rel basepath targpath =
     (let base = filepath_Clean basepath; targ = filepath_Clean targpath
      in if targ = base then Inr ''.''
         else let base = (if base = ''.'' then [] else base);
                  baseSlashed = (length base > 0 \<and> take 1 base = ''/'');
                  targSlashed = (length targ > 0 \<and> take 1 targ = ''/'')
              in if baseSlashed \<noteq> targSlashed
                 then Inl (''Rel: can't make '' @ targpath @ '' relative to '' @ basepath)
                 else case relLoop base targ of (b, t, e) \<Rightarrow>
                   if e = ''..''
                   then Inl (''Rel: can't make '' @ targpath @ '' relative to '' @ basepath)
                   else if b \<noteq> []
                   then Inr (''..'' @ concat (replicate (strings_Count b (CHR ''/'')) ''/..'')
                             @ (if t \<noteq> [] then ''/'' @ t else []))
                   else Inr t)"

subsection \<open>The gateway\<close>

text \<open>
  The interface \<^verbatim>\<open>Zoohandler\<close> is a record of its methods (\<^verbatim>\<open>Close\<close> apart). A method
  takes the state \<open>'s\<close> of whatever stands behind the interface (the remote store and
  the connection) and returns the new one. A Go result \<open>(v, err)\<close> is \<open>Inl err\<close> when
  \<open>err\<close> is not nil, and \<open>Inr v\<close> otherwise: no caller in the repository reads \<open>v\<close>
  beside an error, and a \<^verbatim>\<open>*zk.Stat\<close> that comes with a nil error is not nil.
\<close>

record ACL =
  Perms :: int
  Scheme :: string
  ID :: string



record 's Zoohandler =
  Children :: "string \<Rightarrow> 's \<Rightarrow> (error + string list \<times> Stat) \<times> 's"
  Create :: "string \<Rightarrow> bytes \<Rightarrow> int \<Rightarrow> ACL list \<Rightarrow> 's \<Rightarrow> (error + string) \<times> 's"
  Delete :: "string \<Rightarrow> int \<Rightarrow> 's \<Rightarrow> error option \<times> 's"
  Exists :: "string \<Rightarrow> 's \<Rightarrow> (error + bool \<times> Stat) \<times> 's"
  Get :: "string \<Rightarrow> 's \<Rightarrow> (error + bytes \<times> Stat) \<times> 's"
  Set :: "string \<Rightarrow> bytes \<Rightarrow> int \<Rightarrow> 's \<Rightarrow> (error + Stat) \<times> 's"

text \<open>\<^verbatim>\<open>ZooHandle\<close>: the wire client \<^verbatim>\<open>zk\<close> (itself a \<^verbatim>\<open>Zoohandler\<close>), the root alias and
  the mount point.\<close>

record 's ZooHandle =
  zk :: "'s Zoohandler"
  ZKRoot :: string
  FuseMount :: string

definition ZKPath :: "'s ZooHandle \<Rightarrow> string \<Rightarrow> string" where
  "ZKPath z p =
     (case filepath_Rel (FuseMount z) (filepath_Join [FuseMount z, p]) of
        Inl err \<Rightarrow> filepath_Join [''/'', ZKRoot z]
      | Inr rel \<Rightarrow> filepath_Join [''/'', ZKRoot z, rel])"

definition ZooHandle_Delete :: "'s ZooHandle \<Rightarrow> string \<Rightarrow> int \<Rightarrow> 's \<Rightarrow> error option \<times> 's" where
  "ZooHandle_Delete z p version = Delete (zk z) (ZKPath z p) version"

definition ZooHandle_Create ::
  "'s ZooHandle \<Rightarrow> string \<Rightarrow> bytes \<Rightarrow> int \<Rightarrow> ACL list \<Rightarrow> 's \<Rightarrow> (error + string) \<times> 's" where
  "ZooHandle_Create z p d flags acl = Create (zk z) (ZKPath z p) d flags acl"

definition ZooHandle_Children ::
  "'s ZooHandle \<Rightarrow> string \<Rightarrow> 's \<Rightarrow> (error + string list \<times> Stat) \<times> 's" where
  "ZooHandle_Children z p = Children (zk z) (ZKPath z p)"

definition ZooHandle_Exists :: "'s ZooHandle \<Rightarrow> string \<Rightarrow> 's \<Rightarrow> (error + bool \<times> Stat) \<times> 's" where
  "ZooHandle_Exists z p = Exists (zk z) (ZKPath z p)"

definition ZooHandle_Get :: "'s ZooHandle \<Rightarrow> string \<Rightarrow> 's \<Rightarrow> (error + bytes \<times> Stat) \<times> 's" where
  "ZooHandle_Get z p = Get (zk z) (ZKPath z p)"

definition ZooHandle_Set ::
  "'s ZooHandle \<Rightarrow> string \<Rightarrow> bytes \<Rightarrow> int \<Rightarrow> 's \<Rightarrow> (error + Stat) \<times> 's" where
  "ZooHandle_Set z p d version s =
     (if length d > MaxZnodeData
      then (Inl ''length of data payload exceeds allowable limit (1048576)'', s)
      else Set (zk z) (ZKPath z p) d version s)"

text \<open>A \<^verbatim>\<open>*ZooHandle\<close> as a value of the interface, as \<^verbatim>\<open>main\<close> stores it in the file
  system.\<close>

definition gateway :: "'s ZooHandle \<Rightarrow> 's Zoohandler" where
  "gateway z =
     \<lparr>Children = ZooHandle_Children z, Create = ZooHandle_Create z,
      Delete = ZooHandle_Delete z, Exists = ZooHandle_Exists z,
      Get = ZooHandle_Get z, Set = ZooHandle_Set z\<rparr>"

text \<open>
  Two implementations of the interface to observe the code with. \<open>recording h\<close> behaves as
  \<open>h\<close> and appends every call it receives to a log kept beside the state of \<open>h\<close>.
  \<open>programmed\<close> answers every call with a fixed result, as the \<^verbatim>\<open>MockZooHandle\<close> of the
  tests does; its state is \<^typ>\<open>unit\<close>.
\<close>

datatype call =
  Call_Children string
| Call_Create string bytes int "ACL list"
| Call_Delete string int
| Call_Exists string
| Call_Get string
| Call_Set string bytes int

definition logged :: "call \<Rightarrow> 'r \<times> 's \<Rightarrow> call list \<Rightarrow> 'r \<times> 's \<times> call list" where
  "logged c rs log = (fst rs, snd rs, log @ [c])"

definition recording :: "'s Zoohandler \<Rightarrow> ('s \<times> call list) Zoohandler" where
  "recording h =
     \<lparr>Children = (\<lambda>p (s, log). logged (Call_Children p) (Children h p s) log),
      Create = (\<lambda>p d flags acl (s, log). logged (Call_Create p d flags acl) (Create h p d flags acl s) log),
      Delete = (\<lambda>p v (s, log). logged (Call_Delete p v) (Delete h p v s) log),
      Exists = (\<lambda>p (s, log). logged (Call_Exists p) (Exists h p s) log),
      Get = (\<lambda>p (s, log). logged (Call_Get p) (Get h p s) log),
      Set = (\<lambda>p d v (s, log). logged (Call_Set p d v) (Set h p d v s) log)\<rparr>"

definition programmed ::
  "(error + string list \<times> Stat) \<Rightarrow> (error + string) \<Rightarrow> error option \<Rightarrow>
   (error + bool \<times> Stat) \<Rightarrow> (error + bytes \<times> Stat) \<Rightarrow> (error + Stat) \<Rightarrow> unit Zoohandler" where
  "programmed children created deleted exists got stored =
     \<lparr>Children = (\<lambda>p s. (children, s)), Create = (\<lambda>p d flags acl s. (created, s)),
      Delete = (\<lambda>p v s. (deleted, s)), Exists = (\<lambda>p s. (exists, s)),
      Get = (\<lambda>p s. (got, s)), Set = (\<lambda>p d v s. (stored, s))\<rparr>"

text \<open>The double of \<^verbatim>\<open>TestRead\<close> and \<^verbatim>\<open>TestWrite\<close>: \<^verbatim>\<open>Set\<close> is programmed to report
  three bytes stored, no other method is programmed.\<close>

definition mockZooKeeper :: "unit Zoohandler" where
  "mockZooKeeper =
     programmed (Inl ''mock'') (Inl ''mock'') (Some ''mock'') (Inl ''mock'') (Inl ''mock'')
       (Inr \<lparr>Stat.Ctime = 0, Stat.Mtime = 0, DataLength = 3, NumChildren = 0\<rparr>)"

subsection \<open>File handles\<close>

text \<open>\<^verbatim>\<open>FuseFile\<close>: the snapshot \<^verbatim>\<open>data\<close>, the attributes, the gateway and the path.\<close>

record 's FuseFile =
  data :: bytes
  attr :: Attr
  zh :: "'s Zoohandler"
  path :: string

text \<open>\<^verbatim>\<open>NewFuseFile\<close>; \<^verbatim>\<open>time.Now().Unix()\<close> and \<^verbatim>\<open>fuse.CurrentOwner()\<close> are read from
  the environment and are the first two parameters here.\<close>

definition NewFuseFile ::
  "64 word \<Rightarrow> fuse_Owner \<Rightarrow> bytes \<Rightarrow> 32 word \<Rightarrow> string \<Rightarrow> 's Zoohandler \<Rightarrow> 's FuseFile" where
  "NewFuseFile now owner d mode p h =
     \<lparr>data = d,
      attr = zeroAttr\<lparr>Attr.Mode := mode OR IfRegRW, Size := word_of_int (int (length d)),
                      Atime := now, Attr.Mtime := now, Owner := owner\<rparr>,
      zh = h,
      path = p\<rparr>"

text \<open>Go's slice expression \<^verbatim>\<open>s[lo:hi]\<close> panics unless \<open>0 \<le> lo \<le> hi \<le> cap s\<close>. Every
  \<open>hi\<close> the code passes is at most \<open>len s\<close>, so the capacity never decides.\<close>

definition slice :: "'a list \<Rightarrow> int \<Rightarrow> int \<Rightarrow> panic + 'a list" where
  "slice s lo hi =
     (if 0 \<le> lo \<and> lo \<le> hi \<and> hi \<le> int (length s)
      then Inr (take (nat (hi - lo)) (drop (nat lo) s))
      else Inl SliceBoundsOutOfRange)"

text \<open>\<^verbatim>\<open>FuseFile.Read\<close>. Only the length of \<^verbatim>\<open>buf\<close> is used. The sum \<^verbatim>\<open>int(off) + len(buf)\<close>
  wraps around at 64 bits.\<close>

definition FuseFile_Read :: "'s FuseFile \<Rightarrow> bytes \<Rightarrow> int \<Rightarrow> panic + (bytes \<times> Status)" where
  "FuseFile_Read f buf off =
     (let end0 = signed_take_bit 63 (off + int (length buf));
          end1 = (if end0 > int (length (data f)) then int (length (data f)) else end0)
      in case slice (data f) off end1 of
           Inl p \<Rightarrow> Inl p
         | Inr bs \<Rightarrow> Inr (bs, OK))"

text \<open>\<^verbatim>\<open>FuseFile.Write\<close> returns the count, the status, the handle (its \<^verbatim>\<open>attr.Size\<close> may
  have changed) and the state behind the gateway. \<^verbatim>\<open>uint64(stat.DataLength)\<close> and
  \<^verbatim>\<open>uint32(stat.DataLength)\<close> are \<^const>\<open>word_of_int\<close>.\<close>

definition FuseFile_Write ::
  "'s FuseFile \<Rightarrow> bytes \<Rightarrow> int \<Rightarrow> 's \<Rightarrow> (32 word \<times> Status) \<times> 's FuseFile \<times> 's" where
  "FuseFile_Write f content off s =
     (if length content = 0 then ((0, OK), f, s)
      else case Set (zh f) (path f) content (- 1) s of
             (Inl err, s') \<Rightarrow> ((0, EIO), f, s')
           | (Inr stat, s') \<Rightarrow>
               ((word_of_int (DataLength stat), OK),
                f\<lparr>attr := (attr f)\<lparr>Size := word_of_int (DataLength stat)\<rparr>\<rparr>, s'))"

subsection \<open>The file system adapter\<close>

text \<open>\<^verbatim>\<open>FuseFS\<close>. The constant \<^verbatim>\<open>ZNodeMarker\<close> is declared in none of the three files (the README
  gives the name \<^verbatim>\<open>__znode_data__\<close>); the functions that use it take it as their first
  parameter.\<close>

record 's FuseFS =
  zh :: "'s Zoohandler"
  FuseRoot :: string
  IsReadWrite :: bool

text \<open>\<^verbatim>\<open>FuseFS.GetAttr\<close>. A nil \<^verbatim>\<open>*fuse.Attr\<close> is \<^const>\<open>None\<close>. Go's integer division
  truncates (\<open>sdiv\<close>).\<close>

definition FuseFS_GetAttr ::
  "string \<Rightarrow> 's FuseFS \<Rightarrow> string \<Rightarrow> 's \<Rightarrow> (Attr option \<times> Status) \<times> 's" where
  "FuseFS_GetAttr ZNodeMarker f p s =
     (if p = [] then ((Some (zeroAttr\<lparr>Attr.Mode := S_IFDIR OR dirPermissions (IsReadWrite f)\<rparr>), OK), s)
      else case Exists (FuseFS.zh f) p s of
             (Inl err, s') \<Rightarrow> ((None, ENOENT), s')
           | (Inr (found, stat), s') \<Rightarrow>
               if \<not> found then ((None, ENOENT), s')
               else let fa = zeroAttr;
                        fa = (if strings_HasSuffix p ZNodeMarker
                              then fa\<lparr>Attr.Mode := S_IFREG OR IfRegRO\<rparr>
                              else if NumChildren stat = 0
                              then fa\<lparr>Attr.Mode := S_IFREG OR filePermissions (IsReadWrite f)\<rparr>
                              else fa\<lparr>Attr.Mode := S_IFDIR OR dirPermissions (IsReadWrite f)\<rparr>);
                        fa = fa\<lparr>Size := word_of_int (DataLength stat)\<rparr>;
                        fa = fa\<lparr>Attr.Mtime := word_of_int (Stat.Mtime stat sdiv 1000)\<rparr>;
                        fa = fa\<lparr>Attr.Ctime := word_of_int (Stat.Ctime stat sdiv 1000)\<rparr>
                    in ((Some fa, OK), s'))"

text \<open>
  \<^verbatim>\<open>FuseFS.OpenDir\<close> starts one goroutine per child and waits for all of them
  (\<^verbatim>\<open>wg.Wait()\<close>). The goroutines run concurrently and share the variable
  \<^verbatim>\<open>dirEntries\<close>, the channel \<^verbatim>\<open>chanLimiter\<close> and the gateway. A goroutine
  \<^item> sends into \<^verbatim>\<open>chanLimiter\<close>, which blocks while the channel holds \<open>maxWorkers\<close>
    tokens;
  \<^item> calls \<^verbatim>\<open>Exists\<close> for its child, and goes straight to its deferred calls when the
    call fails or finds nothing;
  \<^item> builds its entry and executes \<^verbatim>\<open>dirEntries = append(dirEntries, dirEntry)\<close>: it
    reads the shared slice and then assigns the longer slice to the shared variable. No
    lock is held, so other goroutines may run between the read and the assignment;
  \<^item> runs its deferred calls: it receives from \<^verbatim>\<open>chanLimiter\<close> and is done.

  \<open>worker\<close> is the point a goroutine has reached, \<open>fanout\<close> the shared state with the
  goroutines, and \<open>advance\<close> lets goroutine \<open>i\<close> take its next step (none when it is
  blocked or done). A schedule is the list of the goroutines' numbers in the order in
  which they take their steps. \<^verbatim>\<open>OpenDir\<close> returns once every goroutine is done; a
  schedule that ends before that is not a run of the call, and the result is
  \<^const>\<open>None\<close>. A nil slice is the empty list.
\<close>

definition maxWorkers :: "string list \<Rightarrow> nat" where
  "maxWorkers children =
     (if MaxConcurrentRequests > length children then length children
      else MaxConcurrentRequests)"

datatype worker =
  Waiting string
| Holding string
| Appending DirEntry
| Assigning DirEntry "DirEntry list"
| Releasing
| Done

record 's fanout =
  workers :: "worker list"
  chanLimiter :: nat
  dirEntries :: "DirEntry list"
  remote :: 's

definition advance :: "'s FuseFS \<Rightarrow> string \<Rightarrow> nat \<Rightarrow> 's fanout \<Rightarrow> nat \<Rightarrow> 's fanout" where
  "advance f p capacity c i =
     (if i \<ge> length (workers c) then c
      else case workers c ! i of
        Waiting directory \<Rightarrow>
          if chanLimiter c < capacity
          then c\<lparr>workers := (workers c)[i := Holding directory], chanLimiter := chanLimiter c + 1\<rparr>
          else c
      | Holding directory \<Rightarrow>
          (case Exists (FuseFS.zh f) (filepath_Join [p, ''/'', directory]) (remote c) of
             (Inl err, s') \<Rightarrow> c\<lparr>workers := (workers c)[i := Releasing], remote := s'\<rparr>
           | (Inr (found, stat), s') \<Rightarrow>
               if \<not> found then c\<lparr>workers := (workers c)[i := Releasing], remote := s'\<rparr>
               else let dirEntry = \<lparr>Name = directory, DirEntry.Mode = 0\<rparr>;
                        dirEntry = (if NumChildren stat > 0 then dirEntry\<lparr>DirEntry.Mode := S_IFDIR\<rparr>
                                    else dirEntry\<lparr>DirEntry.Mode := S_IFREG\<rparr>)
                    in c\<lparr>workers := (workers c)[i := Appending dirEntry], remote := s'\<rparr>)
      | Appending dirEntry \<Rightarrow>
          c\<lparr>workers := (workers c)[i := Assigning dirEntry (dirEntries c)]\<rparr>
      | Assigning dirEntry old \<Rightarrow>
          c\<lparr>workers := (workers c)[i := Releasing], dirEntries := old @ [dirEntry]\<rparr>
      | Releasing \<Rightarrow>
          c\<lparr>workers := (workers c)[i := Done], chanLimiter := chanLimiter c - 1\<rparr>
      | Done \<Rightarrow> c)"

definition FuseFS_OpenDir ::
  "string \<Rightarrow> nat list \<Rightarrow> 's FuseFS \<Rightarrow> string \<Rightarrow> 's
     \<Rightarrow> ((DirEntry list \<times> Status) \<times> 's) option" where
  "FuseFS_OpenDir ZNodeMarker schedule f p s =
     (case Children (FuseFS.zh f) p s of
        (Inl err, s') \<Rightarrow> Some (([], ENOENT), s')
      | (Inr (children, stat), s') \<Rightarrow>
          let entries = [] @ [\<lparr>Name = ZNodeMarker, DirEntry.Mode = S_IFREG\<rparr>]
          in if length children = 0 then Some ((entries, OK), s')
             else let c = foldl (advance f p (maxWorkers children))
                            \<lparr>workers = map Waiting children, chanLimiter = 0,
                             dirEntries = entries, remote = s'\<rparr>
                            schedule
                  in if list_all (\<lambda>w. w = Done) (workers c)
                     then Some ((dirEntries c, OK), remote c)
                     else None)"


definition FuseFS_Open ::
  "64 word \<Rightarrow> fuse_Owner \<Rightarrow> 's FuseFS \<Rightarrow> string \<Rightarrow> 32 word \<Rightarrow> 's
     \<Rightarrow> ('s FuseFile option \<times> Status) \<times> 's" where
  "FuseFS_Open now owner f p flags s =
     (case Get (FuseFS.zh f) p s of
        (Inl err, s') \<Rightarrow> ((None, ENOENT), s')
      | (Inr (d, stat), s') \<Rightarrow> ((Some (NewFuseFile now owner d IfRegRW p (FuseFS.zh f)), OK), s'))"

text \<open>\<^verbatim>\<open>FuseFS.Unlink\<close>.\<close>

definition FuseFS_Unlink :: "string \<Rightarrow> 's FuseFS \<Rightarrow> string \<Rightarrow> 's \<Rightarrow> Status \<times> 's" where
  "FuseFS_Unlink ZNodeMarker f p s =
     (if strings_HasSuffix p ZNodeMarker then (EPERM, s)
      else case Delete (FuseFS.zh f) p (- 1) s of
             (Some err, s') \<Rightarrow> (EIO, s')
           | (None, s') \<Rightarrow> (OK, s'))"

subsection \<open>Observing the calls\<close>

text \<open>The same handle, file system and file, with a recording implementation in place of
  the interface value they hold: the log shows which calls the code under observation
  makes.\<close>

definition observed :: "'s ZooHandle \<Rightarrow> ('s \<times> call list) ZooHandle" where
  "observed z = \<lparr>zk = recording (zk z), ZKRoot = ZKRoot z, FuseMount = FuseMount z\<rparr>"

definition observedFS :: "'s FuseFS \<Rightarrow> ('s \<times> call list) FuseFS" where
  "observedFS f = \<lparr>zh = recording (FuseFS.zh f), FuseRoot = FuseRoot f, IsReadWrite = IsReadWrite f\<rparr>"

definition observedFile :: "'s FuseFile \<Rightarrow> ('s \<times> call list) FuseFile" where
  "observedFile f = \<lparr>data = data f, attr = attr f, zh = recording (FuseFile.zh f), path = path f\<rparr>"

subsection \<open>Paths as lists of segments\<close>

text \<open>
  The vocabulary in which the path functions are characterised. \<open>segments\<close> splits a
  string at every separator. \<open>step\<close> is what one segment does to the stack of names a
  path has reached: an empty segment and \<open>.\<close> do nothing, \<open>..\<close> removes the last
  name, or, where there is none to remove, is dropped (rooted path) or kept (relative
  path); any other segment is pushed. \<open>lexical rooted s\<close> is the stack the whole of
  \<open>s\<close> reaches.
\<close>

fun segments :: "string \<Rightarrow> string list" where
  "segments [] = [[]]"
| "segments (c # cs) =
     (if c = CHR ''/'' then [] # segments cs
      else (case segments cs of [] \<Rightarrow> [[c]] | x # xs \<Rightarrow> (c # x) # xs))"

definition step :: "bool \<Rightarrow> string list \<Rightarrow> string \<Rightarrow> string list" where
  "step rooted st seg =
     (if seg = [] \<or> seg = ''.'' then st
      else if seg = ''..''
      then (if st \<noteq> [] \<and> last st \<noteq> ''..'' then butlast st
            else if rooted then st else st @ [''..''])
      else st @ [seg])"

definition lexical :: "bool \<Rightarrow> string \<Rightarrow> string list" where
  "lexical rooted s = foldl (step rooted) [] (segments s)"

text \<open>A name proper: not empty, free of separators, and neither \<open>.\<close> nor \<open>..\<close>.\<close>

definition okSeg :: "string \<Rightarrow> bool" where
  "okSeg a = (a \<noteq> [] \<and> CHR ''/'' \<notin> set a)"

definition plain :: "string \<Rightarrow> bool" where
  "plain a = (okSeg a \<and> a \<noteq> ''.'' \<and> a \<noteq> ''..'')"

text \<open>
  The state of \<^const>\<open>cleanLoop\<close> read as a stack: \<open>render\<close> is the buffer that holds the
  stack, \<open>mark\<close> the index at which \<open>..\<close> stops backtracking (behind the leading
  separator, or behind the leading \<open>..\<close> elements), and a stack is \<open>wellformed\<close> when
  \<open>..\<close> occurs in it only as such leading elements of a relative path. \<open>cleaned\<close> is
  the result of \<^const>\<open>filepath_Clean\<close> for a stack.
\<close>

abbreviation notSep :: "char \<Rightarrow> bool" where "notSep \<equiv> (\<lambda>x. x \<noteq> CHR ''/'')"

abbreviation isDotDot :: "string \<Rightarrow> bool" where "isDotDot \<equiv> (\<lambda>x. x = ''..'')"

definition render :: "bool \<Rightarrow> string list \<Rightarrow> string" where
  "render rooted st = (if rooted then ''/'' @ strings_Join st ''/'' else strings_Join st ''/'')"

definition mark :: "bool \<Rightarrow> string list \<Rightarrow> nat" where
  "mark rooted st =
     (if rooted then 1 else length (strings_Join (takeWhile isDotDot st) ''/''))"

definition wellformed :: "bool \<Rightarrow> string list \<Rightarrow> bool" where
  "wellformed rooted st =
     (list_all okSeg st \<and>
      (if rooted then ''..'' \<notin> set st else ''..'' \<notin> set (dropWhile isDotDot st)))"

definition cleaned :: "bool \<Rightarrow> string list \<Rightarrow> string" where
  "cleaned r M = (if r then ''/'' @ strings_Join M ''/''
                  else if M = [] then ''.'' else strings_Join M ''/'')"


section \<open>Theorems\<close>

subsection \<open>Reading from a handle\<close>

lemma signed_take_bit_63_id:
  "0 \<le> (k::int) \<Longrightarrow> k < 2 ^ 63 \<Longrightarrow> signed_take_bit 63 k = k"
  by (rule signed_take_bit_int_eq_self) simp_all

lemma signed_take_bit_63_less: "signed_take_bit 63 (k::int) < 2 ^ 63"
  using signed_take_bit_int_less_exp [of 63 k] by simp

text \<open>
  C1 (as the code has it). For a handle with snapshot \<open>s\<close>: when \<open>0 \<le> off \<le> len s\<close>
  (and the two lengths add up without overflow), \<^verbatim>\<open>Read\<close> returns status OK and exactly
  the bytes \<open>s[off .. min (off + len buf) (len s)]\<close>, that is
  \<open>min (len buf) (len s - off)\<close> bytes, none of them when \<open>off = len s\<close>. When
  \<open>off > len s\<close> or \<open>off < 0\<close>, \<^verbatim>\<open>Read\<close> does not return a status at all: the slice
  expression panics.
\<close>

theorem Read_slice_or_panic:
  "(0 \<le> off \<and> off \<le> int (length (data f)) \<and> int (length (data f)) + int (length buf) < 2 ^ 63
      \<longrightarrow> FuseFile_Read f buf off =
          Inr (take (min (length buf) (length (data f) - nat off)) (drop (nat off) (data f)), OK))
   \<and> (int (length (data f)) < off \<or> off < 0 \<longrightarrow> FuseFile_Read f buf off = Inl SliceBoundsOutOfRange)"
proof (intro conjI impI)
  assume h: "0 \<le> off \<and> off \<le> int (length (data f)) \<and> int (length (data f)) + int (length buf) < 2 ^ 63"
  then have nowrap: "signed_take_bit 63 (off + int (length buf)) = off + int (length buf)"
    by (intro signed_take_bit_63_id) auto
  have n: "nat (min (off + int (length buf)) (int (length (data f))) - off)
            = min (length buf) (length (data f) - nat off)"
    using h by auto
  show "FuseFile_Read f buf off =
          Inr (take (min (length buf) (length (data f) - nat off)) (drop (nat off) (data f)), OK)"
  proof (cases "off + int (length buf) > int (length (data f))")
    case True
    with h n show ?thesis
      by (simp add: FuseFile_Read_def nowrap slice_def min_def)
  next
    case False
    with h n show ?thesis
      by (simp add: FuseFile_Read_def nowrap slice_def min_def)
  qed
next
  assume h: "int (length (data f)) < off \<or> off < 0"
  show "FuseFile_Read f buf off = Inl SliceBoundsOutOfRange"
    using h by (auto simp: FuseFile_Read_def slice_def Let_def)
qed

text \<open>The test of the repository (\<^verbatim>\<open>TestRead\<close>): a handle on three zero bytes, an empty
  buffer; offset 3 reads nothing, offset 4 panics.\<close>

theorem Read_slice_or_panic_witness:
  "FuseFile_Read (NewFuseFile 0 zeroOwner [0, 0, 0] 0 ''mock/path'' mockZooKeeper) [] 3 = Inr ([], OK)
   \<and> FuseFile_Read (NewFuseFile 0 zeroOwner [1, 2, 3] 0 ''mock/path'' mockZooKeeper) [0, 0] 1 = Inr ([2, 3], OK)
   \<and> FuseFile_Read (NewFuseFile 0 zeroOwner [0, 0, 0] 0 ''mock/path'' mockZooKeeper) [] 4 = Inl SliceBoundsOutOfRange"
  using Read_slice_or_panic [of 3 "NewFuseFile 0 zeroOwner [0, 0, 0] 0 ''mock/path'' mockZooKeeper" "[]"]
    Read_slice_or_panic [of 1 "NewFuseFile 0 zeroOwner [1, 2, 3] 0 ''mock/path'' mockZooKeeper" "[0, 0]"]
    Read_slice_or_panic [of 4 "NewFuseFile 0 zeroOwner [0, 0, 0] 0 ''mock/path'' mockZooKeeper" "[]"]
  by (simp add: NewFuseFile_def)

text \<open>C1 as the specification states it asks for a rejection with \<^verbatim>\<open>InvalidArgument\<close>
  (\<^const>\<open>EINVAL\<close>) and no panic when the offset lies beyond the snapshot. At the input of
  \<^verbatim>\<open>TestRead\<close> the code panics.\<close>

theorem Read_beyond_end_counterexample:
  "FuseFile_Read (NewFuseFile 0 zeroOwner [0, 0, 0] 0 ''mock/path'' mockZooKeeper) [] 4 = Inl SliceBoundsOutOfRange
   \<and> FuseFile_Read (NewFuseFile 0 zeroOwner [0, 0, 0] 0 ''mock/path'' mockZooKeeper) [] 4 \<noteq> Inr ([], EINVAL)"
  by (simp add: FuseFile_Read_def NewFuseFile_def slice_def)

subsection \<open>Facts about the two observing implementations\<close>

lemma logged_simp: "logged c (r, s) log = (r, s, log @ [c])"
  by (simp add: logged_def)

lemma recording_sel:
  "Children (recording h) p (s, log) = logged (Call_Children p) (Children h p s) log"
  "Create (recording h) p d fl acl (s, log) = logged (Call_Create p d fl acl) (Create h p d fl acl s) log"
  "Delete (recording h) p v (s, log) = logged (Call_Delete p v) (Delete h p v s) log"
  "Exists (recording h) p (s, log) = logged (Call_Exists p) (Exists h p s) log"
  "Get (recording h) p (s, log) = logged (Call_Get p) (Get h p s) log"
  "Set (recording h) p d v (s, log) = logged (Call_Set p d v) (Set h p d v s) log"
  by (simp_all add: recording_def)

lemma programmed_sel:
  "Children (programmed a b c d e g) p s = (a, s)"
  "Create (programmed a b c d e g) p x fl acl s = (b, s)"
  "Delete (programmed a b c d e g) p v s = (c, s)"
  "Exists (programmed a b c d e g) p s = (d, s)"
  "Get (programmed a b c d e g) p s = (e, s)"
  "Set (programmed a b c d e g) p x v s = (g, s)"
  by (simp_all add: programmed_def)

lemma ZKPath_observed [simp]: "ZKPath (observed z) p = ZKPath z p"
  by (simp add: ZKPath_def observed_def cong: sum.case_cong)

lemma ZKPath_eval_x:
  "ZKPath \<lparr>zk = h, ZKRoot = ''/chroot'', FuseMount = ''/mnt/fuse''\<rparr> ''x'' = ''/chroot/x''"
proof -
  have r: "filepath_Rel ''/mnt/fuse'' (filepath_Join [''/mnt/fuse'', ''x'']) = Inr ''x''"
    by code_simp
  have j: "filepath_Join [''/'', ''/chroot'', ''x''] = ''/chroot/x''"
    by code_simp
  show ?thesis
    by (simp add: ZKPath_def r j del: filepath_Join.simps)
qed

subsection \<open>Attributes\<close>

lemma mode_values_distinct:
  "S_IFDIR OR dirPermissions rw \<noteq> S_IFREG OR filePermissions rw"
  by (simp add: S_IFDIR_def S_IFREG_def dirPermissions_def filePermissions_def
      IfDirRW_def IfDirRO_def IfRegRW_def IfRegRO_def)

text \<open>
  C5. For a path other than the root: if the gateway's \<^verbatim>\<open>Exists\<close> fails or reports the node
  absent, \<^verbatim>\<open>GetAttr\<close> fails with \<^const>\<open>ENOENT\<close>. If the node is present (its child count,
  a count, is not negative), \<^verbatim>\<open>GetAttr\<close> succeeds; a path that ends in the marker name is a
  regular file of mode 0444 whatever the child count; any other path is a directory
  (\<^const>\<open>S_IFDIR\<close> with the directory mask of the mount) iff the child count is positive,
  and a regular file (\<^const>\<open>S_IFREG\<close> with the file mask of the mount) iff it is zero.
\<close>

theorem GetAttr_classifies:
  "p \<noteq> [] \<Longrightarrow>
   (\<forall>e s'. Exists (FuseFS.zh f) p s = (Inl e, s') \<longrightarrow>
      FuseFS_GetAttr ZNodeMarker f p s = ((None, ENOENT), s'))
   \<and> (\<forall>st s'. Exists (FuseFS.zh f) p s = (Inr (False, st), s') \<longrightarrow>
      FuseFS_GetAttr ZNodeMarker f p s = ((None, ENOENT), s'))
   \<and> (\<forall>st s'. Exists (FuseFS.zh f) p s = (Inr (True, st), s') \<and> 0 \<le> NumChildren st \<longrightarrow>
      (\<exists>fa. FuseFS_GetAttr ZNodeMarker f p s = ((Some fa, OK), s')
         \<and> (strings_HasSuffix p ZNodeMarker \<longrightarrow> Attr.Mode fa = S_IFREG OR IfRegRO)
         \<and> (\<not> strings_HasSuffix p ZNodeMarker \<longrightarrow>
               (Attr.Mode fa = S_IFDIR OR dirPermissions (IsReadWrite f) \<longleftrightarrow> NumChildren st > 0)
             \<and> (Attr.Mode fa = S_IFREG OR filePermissions (IsReadWrite f) \<longleftrightarrow> NumChildren st = 0))))"
  using mode_values_distinct [of "IsReadWrite f"]
  by (auto simp: FuseFS_GetAttr_def Let_def)

theorem GetAttr_classifies_witness:
  "(\<exists>fa. FuseFS_GetAttr ''__znode_data__''
        \<lparr>zh = programmed (Inl ''mock'') (Inl ''mock'') None
               (Inr (True, \<lparr>Stat.Ctime = 2000, Stat.Mtime = 3000, DataLength = 2, NumChildren = 0\<rparr>))
               (Inl ''mock'') (Inl ''mock''),
         FuseRoot = ''/mnt/fuse'', IsReadWrite = False\<rparr> ''x'' () = ((Some fa, OK), ())
      \<and> Attr.Mode fa = S_IFREG OR IfRegRO)
   \<and> (\<exists>fa. FuseFS_GetAttr ''__znode_data__''
        \<lparr>zh = programmed (Inl ''mock'') (Inl ''mock'') None
               (Inr (True, \<lparr>Stat.Ctime = 2000, Stat.Mtime = 3000, DataLength = 2, NumChildren = 4\<rparr>))
               (Inl ''mock'') (Inl ''mock''),
         FuseRoot = ''/mnt/fuse'', IsReadWrite = True\<rparr> ''x'' () = ((Some fa, OK), ())
      \<and> Attr.Mode fa = S_IFDIR OR IfDirRW)
   \<and> FuseFS_GetAttr ''__znode_data__''
        \<lparr>zh = programmed (Inl ''mock'') (Inl ''mock'') None
               (Inr (False, \<lparr>Stat.Ctime = 0, Stat.Mtime = 0, DataLength = 0, NumChildren = 0\<rparr>))
               (Inl ''mock'') (Inl ''mock''),
         FuseRoot = ''/mnt/fuse'', IsReadWrite = True\<rparr> ''x'' () = ((None, ENOENT), ())"
  using GetAttr_classifies [of "''x''"
        "\<lparr>zh = programmed (Inl ''mock'') (Inl ''mock'') None
               (Inr (True, \<lparr>Stat.Ctime = 2000, Stat.Mtime = 3000, DataLength = 2, NumChildren = 0\<rparr>))
               (Inl ''mock'') (Inl ''mock''),
         FuseRoot = ''/mnt/fuse'', IsReadWrite = False\<rparr>" "()" "''__znode_data__''"]
    GetAttr_classifies [of "''x''"
        "\<lparr>zh = programmed (Inl ''mock'') (Inl ''mock'') None
               (Inr (True, \<lparr>Stat.Ctime = 2000, Stat.Mtime = 3000, DataLength = 2, NumChildren = 4\<rparr>))
               (Inl ''mock'') (Inl ''mock''),
         FuseRoot = ''/mnt/fuse'', IsReadWrite = True\<rparr>" "()" "''__znode_data__''"]
    GetAttr_classifies [of "''x''"
        "\<lparr>zh = programmed (Inl ''mock'') (Inl ''mock'') None
               (Inr (False, \<lparr>Stat.Ctime = 0, Stat.Mtime = 0, DataLength = 0, NumChildren = 0\<rparr>))
               (Inl ''mock'') (Inl ''mock''),
         FuseRoot = ''/mnt/fuse'', IsReadWrite = True\<rparr>" "()" "''__znode_data__''"]
  by (auto simp: programmed_sel strings_HasSuffix_def filePermissions_def dirPermissions_def)

subsection \<open>Directory listings\<close>

text \<open>
  C6 (what the code does). A directory with the two children \<open>a\<close> and \<open>b\<close>, both
  present, each with a child of its own. When the goroutines take their steps in turn,
  both read \<^verbatim>\<open>dirEntries\<close> while it holds the marker entry alone, and the second
  assignment overwrites the first: \<^verbatim>\<open>OpenDir\<close> returns status \<^const>\<open>OK\<close> and a listing
  without the entry of \<open>a\<close>, a child whose probe succeeded and found the node. When the
  first goroutine finishes before the second starts, the listing holds the marker and
  both entries.
\<close>

theorem OpenDir_loses_entry:
  "FuseFS_OpenDir ''__znode_data__'' [0, 1, 0, 1, 0, 1, 0, 1, 0, 1]
      \<lparr>zh = programmed (Inr ([''a'', ''b''], \<lparr>Stat.Ctime = 0, Stat.Mtime = 0, DataLength = 0, NumChildren = 2\<rparr>))
             (Inl ''mock'') None
             (Inr (True, \<lparr>Stat.Ctime = 0, Stat.Mtime = 0, DataLength = 0, NumChildren = 1\<rparr>))
             (Inl ''mock'') (Inl ''mock''),
       FuseRoot = ''/mnt/fuse'', IsReadWrite = False\<rparr> ''dir'' ()
     = Some (([\<lparr>Name = ''__znode_data__'', DirEntry.Mode = S_IFREG\<rparr>,
               \<lparr>Name = ''b'', DirEntry.Mode = S_IFDIR\<rparr>], OK), ())
   \<and> FuseFS_OpenDir ''__znode_data__'' [0, 0, 0, 0, 0, 1, 1, 1, 1, 1]
      \<lparr>zh = programmed (Inr ([''a'', ''b''], \<lparr>Stat.Ctime = 0, Stat.Mtime = 0, DataLength = 0, NumChildren = 2\<rparr>))
             (Inl ''mock'') None
             (Inr (True, \<lparr>Stat.Ctime = 0, Stat.Mtime = 0, DataLength = 0, NumChildren = 1\<rparr>))
             (Inl ''mock'') (Inl ''mock''),
       FuseRoot = ''/mnt/fuse'', IsReadWrite = False\<rparr> ''dir'' ()
     = Some (([\<lparr>Name = ''__znode_data__'', DirEntry.Mode = S_IFREG\<rparr>,
               \<lparr>Name = ''a'', DirEntry.Mode = S_IFDIR\<rparr>,
               \<lparr>Name = ''b'', DirEntry.Mode = S_IFDIR\<rparr>], OK), ())"
  by (simp add: FuseFS_OpenDir_def advance_def maxWorkers_def MaxConcurrentRequests_def
      programmed_sel Let_def del: filepath_Join.simps)

subsection \<open>Unlink\<close>

text \<open>
  C7. \<^verbatim>\<open>Unlink\<close> of a path that ends in the marker name returns \<^const>\<open>EPERM\<close> and leaves
  the state behind the gateway as it was, for every file system value (read-write or
  not): no call is made. For any other path the only call is \<^verbatim>\<open>Delete\<close> of that path with
  version \<open>-1\<close> (no \<^verbatim>\<open>Exists\<close> before it); the status is \<^const>\<open>EIO\<close> when the delete
  fails and \<^const>\<open>OK\<close> otherwise.
\<close>

theorem Unlink_marker_or_delete:
  "(strings_HasSuffix p ZNodeMarker \<longrightarrow> FuseFS_Unlink ZNodeMarker f p s = (EPERM, s))
   \<and> (\<not> strings_HasSuffix p ZNodeMarker \<longrightarrow>
        FuseFS_Unlink ZNodeMarker f p s =
          (if fst (Delete (FuseFS.zh f) p (- 1) s) = None then OK else EIO,
           snd (Delete (FuseFS.zh f) p (- 1) s))
        \<and> FuseFS_Unlink ZNodeMarker (observedFS f) p (s, log) =
          (if fst (Delete (FuseFS.zh f) p (- 1) s) = None then OK else EIO,
           snd (Delete (FuseFS.zh f) p (- 1) s), log @ [Call_Delete p (- 1)]))"
  by (auto simp: FuseFS_Unlink_def observedFS_def recording_sel logged_def
      split: prod.splits option.splits)

theorem Unlink_marker_or_delete_witness:
  "FuseFS_Unlink ''__znode_data__''
      (observedFS \<lparr>zh = mockZooKeeper, FuseRoot = ''/mnt/fuse'', IsReadWrite = True\<rparr>)
      ''dir/__znode_data__'' ((), []) = (EPERM, ((), []))
   \<and> FuseFS_Unlink ''__znode_data__''
      (observedFS \<lparr>zh = mockZooKeeper, FuseRoot = ''/mnt/fuse'', IsReadWrite = True\<rparr>)
      ''dir/node'' ((), []) = (EIO, ((), [Call_Delete ''dir/node'' (- 1)]))"
  using Unlink_marker_or_delete [of "''dir/__znode_data__''" "''__znode_data__''"
      "observedFS \<lparr>zh = mockZooKeeper, FuseRoot = ''/mnt/fuse'', IsReadWrite = True\<rparr>" "((), [])"]
    Unlink_marker_or_delete [of "''dir/node''" "''__znode_data__''"
      "\<lparr>zh = mockZooKeeper, FuseRoot = ''/mnt/fuse'', IsReadWrite = True\<rparr>" "()" "[]"]
  by (simp add: strings_HasSuffix_def mockZooKeeper_def programmed_sel)

subsection \<open>The payload bound of \<^verbatim>\<open>Set\<close>\<close>

text \<open>
  C8. \<^verbatim>\<open>ZooHandle.Set\<close> with more than 1,048,576 bytes of data returns the error about the
  payload limit, leaves the state of the wire client as it was and makes no call to it.
  With at most 1,048,576 bytes it is the wire client's \<^verbatim>\<open>Set\<close> on the translated path,
  with the data and the version unchanged, and that is the one call made.
\<close>

theorem Set_size_bound:
  "(length d > 1048576 \<longrightarrow>
      ZooHandle_Set z p d v s = (Inl ''length of data payload exceeds allowable limit (1048576)'', s)
      \<and> ZooHandle_Set (observed z) p d v (s, log)
          = (Inl ''length of data payload exceeds allowable limit (1048576)'', (s, log)))
   \<and> (length d \<le> 1048576 \<longrightarrow>
      ZooHandle_Set z p d v s = Set (zk z) (ZKPath z p) d v s
      \<and> ZooHandle_Set (observed z) p d v (s, log)
          = (fst (Set (zk z) (ZKPath z p) d v s), snd (Set (zk z) (ZKPath z p) d v s),
             log @ [Call_Set (ZKPath z p) d v]))"
proof -
  have "zk (observed z) = recording (zk z)"
    by (simp add: observed_def)
  then show ?thesis
    by (simp add: ZooHandle_Set_def MaxZnodeData_def recording_sel logged_def)
qed

theorem Set_size_bound_witness:
  "ZooHandle_Set (observed \<lparr>zk = mockZooKeeper, ZKRoot = ''/chroot'', FuseMount = ''/mnt/fuse''\<rparr>)
      ''x'' (replicate 1048577 0) (- 1) ((), [])
     = (Inl ''length of data payload exceeds allowable limit (1048576)'', ((), []))
   \<and> ZooHandle_Set (observed \<lparr>zk = mockZooKeeper, ZKRoot = ''/chroot'', FuseMount = ''/mnt/fuse''\<rparr>)
      ''x'' (replicate 1048576 0) (- 1) ((), [])
     = (Inr \<lparr>Stat.Ctime = 0, Stat.Mtime = 0, DataLength = 3, NumChildren = 0\<rparr>,
        ((), [Call_Set ''/chroot/x'' (replicate 1048576 0) (- 1)]))"
  using Set_size_bound [of "replicate 1048577 0"
      "\<lparr>zk = mockZooKeeper, ZKRoot = ''/chroot'', FuseMount = ''/mnt/fuse''\<rparr>"
      "''x''" "- 1" "()" "[]"]
    Set_size_bound [of "replicate 1048576 0"
      "\<lparr>zk = mockZooKeeper, ZKRoot = ''/chroot'', FuseMount = ''/mnt/fuse''\<rparr>"
      "''x''" "- 1" "()" "[]"]
  by (simp add: ZKPath_eval_x mockZooKeeper_def programmed_sel)

subsection \<open>Writing through a handle\<close>

text \<open>
  C9. \<^verbatim>\<open>Write\<close> of empty content returns 0 and \<^const>\<open>OK\<close> and changes neither the handle
  nor the state behind the gateway. \<^verbatim>\<open>Write\<close> of other content makes the one call
  \<^verbatim>\<open>Set\<close> with the handle's path, the whole content and version \<open>-1\<close>, whatever the
  offset. When that call fails, \<^verbatim>\<open>Write\<close> returns 0 and \<^const>\<open>EIO\<close> and the handle is
  unchanged; when it succeeds, \<^verbatim>\<open>Write\<close> returns the reported data length and \<^const>\<open>OK\<close>,
  and the handle's size is the reported data length.
\<close>

theorem Write_whole_content:
  "(content = [] \<longrightarrow> FuseFile_Write f content off s = ((0, OK), f, s))
   \<and> (content \<noteq> [] \<longrightarrow>
        (\<forall>e s'. Set (FuseFile.zh f) (path f) content (- 1) s = (Inl e, s') \<longrightarrow>
           FuseFile_Write f content off s = ((0, EIO), f, s'))
      \<and> (\<forall>st s'. Set (FuseFile.zh f) (path f) content (- 1) s = (Inr st, s') \<longrightarrow>
           FuseFile_Write f content off s =
             ((word_of_int (DataLength st), OK),
              f\<lparr>attr := (attr f)\<lparr>Size := word_of_int (DataLength st)\<rparr>\<rparr>, s')
           \<and> (0 \<le> DataLength st \<and> DataLength st < 2 ^ 31 \<longrightarrow>
                uint (fst (fst (FuseFile_Write f content off s))) = DataLength st
              \<and> uint (Size (attr (fst (snd (FuseFile_Write f content off s))))) = DataLength st))
      \<and> snd (snd (snd (FuseFile_Write (observedFile f) content off (s, log))))
           = log @ [Call_Set (path f) content (- 1)])"
proof -
  have u32: "uint (word_of_int k :: 32 word) = k" if "0 \<le> k" "k < 2 ^ 31" for k :: int
    using that by (simp add: uint_word_of_int take_bit_int_eq_self)
  have u64: "uint (word_of_int k :: 64 word) = k" if "0 \<le> k" "k < 2 ^ 31" for k :: int
    using that by (simp add: uint_word_of_int take_bit_int_eq_self)
  show ?thesis
    by (auto simp: FuseFile_Write_def observedFile_def recording_sel logged_def u32 u64
        split: prod.splits sum.splits)
qed

theorem Write_whole_content_witness:
  "FuseFile_Write (NewFuseFile 0 zeroOwner [0, 0, 0] 0 ''mock/path'' mockZooKeeper) [] 0 ()
     = ((0, OK), NewFuseFile 0 zeroOwner [0, 0, 0] 0 ''mock/path'' mockZooKeeper, ())
   \<and> fst (FuseFile_Write (NewFuseFile 0 zeroOwner [0, 0, 0] 0 ''mock/path'' mockZooKeeper) [0, 0, 0] 0 ())
     = (3, OK)
   \<and> snd (snd (snd (FuseFile_Write
        (observedFile (NewFuseFile 0 zeroOwner [0, 0, 0] 0 ''mock/path'' mockZooKeeper)) [0, 0, 0] 7 ((), []))))
     = [Call_Set ''mock/path'' [0, 0, 0] (- 1)]"
  using Write_whole_content [of "[]" "NewFuseFile 0 zeroOwner [0, 0, 0] 0 ''mock/path'' mockZooKeeper" 0 "()"]
    Write_whole_content [of "[0, 0, 0]" "NewFuseFile 0 zeroOwner [0, 0, 0] 0 ''mock/path'' mockZooKeeper" 0 "()"]
    Write_whole_content [of "[0, 0, 0]" "NewFuseFile 0 zeroOwner [0, 0, 0] 0 ''mock/path'' mockZooKeeper" 7 "()" "[]"]
  by (simp add: NewFuseFile_def mockZooKeeper_def programmed_sel)

subsection \<open>The mode of a handle\<close>



subsection \<open>Path translation\<close>

subsubsection \<open>Segments\<close>

lemma segments_nonempty [simp]: "segments s \<noteq> []"
  by (induction s) (auto split: list.splits)

lemma segments_unfold:
  "segments s = takeWhile notSep s #
     (case dropWhile notSep s of [] \<Rightarrow> [] | c # r \<Rightarrow> segments r)"
proof (induction s)
  case Nil
  show ?case by simp
next
  case (Cons c cs)
  show ?case
  proof (cases "c = CHR ''/''")
    case True
    then show ?thesis by simp
  next
    case False
    then show ?thesis
      using Cons.IH by (simp split: list.splits)
  qed
qed

lemma segments_append_sep: "segments (a @ CHR ''/'' # b) = segments a @ segments b"
  by (induction a) (auto split: list.splits)

lemma step_empty [simp]: "step r st [] = st"
  by (simp add: step_def)

lemma dropWhile_notSep_cases:
  "dropWhile notSep p = [] \<or> (\<exists>rest. dropWhile notSep p = CHR ''/'' # rest)"
proof (cases "dropWhile notSep p")
  case Nil
  then show ?thesis by blast
next
  case (Cons c rest)
  have "\<not> notSep (hd (dropWhile notSep p))"
    by (rule hd_dropWhile) (simp only: Cons, simp)
  then have "c = CHR ''/''"
    by (simp only: Cons list.sel, simp)
  then show ?thesis
    using Cons by blast
qed

lemma foldl_step_segments:
  "foldl (step r) st (segments p)
     = foldl (step r) (step r st (takeWhile notSep p)) (segments (dropWhile notSep p))"
proof -
  consider "dropWhile notSep p = []" | rest where "dropWhile notSep p = CHR ''/'' # rest"
    using dropWhile_notSep_cases by blast
  then show ?thesis
  proof cases
    case 1
    have a: "segments p = [takeWhile notSep p]"
      by (subst segments_unfold) (simp only: 1 list.case)
    have b: "segments (dropWhile notSep p) = [[]]"
      by (simp only: 1 segments.simps)
    show ?thesis
      by (simp only: a b foldl.simps step_empty)
  next
    case 2
    have a: "segments p = takeWhile notSep p # segments rest"
      by (subst segments_unfold) (simp only: 2 list.case)
    have b: "segments (dropWhile notSep p) = [] # segments rest"
      by (simp only: 2 segments.simps refl if_True)
    show ?thesis
      by (simp only: a b foldl.simps step_empty)
  qed
qed


subsubsection \<open>Stacks and the buffer of \<^verbatim>\<open>Clean\<close>\<close>

lemma strings_Join_snoc:
  "strings_Join (xs @ [e]) sep = (if xs = [] then e else strings_Join xs sep @ sep @ e)"
  by (induction xs sep rule: strings_Join.induct) auto

lemma strings_Join_Cons:
  "strings_Join (e # xs) sep = (if xs = [] then e else e @ sep @ strings_Join xs sep)"
  by (cases xs) auto

lemma strings_Join_empty_iff:
  "list_all okSeg st \<Longrightarrow> strings_Join st ''/'' = [] \<longleftrightarrow> st = []"
  by (induction st "''/''" rule: strings_Join.induct) (auto simp: okSeg_def)

lemma render_snoc:
  "list_all okSeg st \<Longrightarrow>
   render r (st @ [e]) = (if st = [] then render r [] @ e else render r st @ ''/'' @ e)"
  by (simp add: render_def strings_Join_snoc)

text \<open>The inner loop of the dot-dot case: from anywhere inside the last element it walks
  back to the separator before it, or to the mark.\<close>

lemma backtrack_in_element:
  assumes "CHR ''/'' \<notin> set a" "k < length a" "d \<le> length u"
    and "length u = d \<or> (u \<noteq> [] \<and> last u = CHR ''/'' \<and> d < length u)"
  shows "backtrack (u @ a) d (length u + k) = (if length u = d then d else length u - 1)"
  using assms
proof (induction k)
  case 0
  show ?case
  proof (cases "length u = d")
    case True
    then show ?thesis
      by (subst backtrack.simps) simp
  next
    case False
    with 0 have u: "u \<noteq> []" "last u = CHR ''/''" "d < length u" by auto
    have a0: "a ! 0 \<noteq> CHR ''/''"
      using 0 by (metis nth_mem)
    have l: "(u @ a) ! (length u - 1) = CHR ''/''"
      using u by (simp add: nth_append last_conv_nth)
    have "backtrack (u @ a) d (length u + 0) = backtrack (u @ a) d (length u - 1)"
      using u a0 by (subst backtrack.simps) (simp add: nth_append)
    also have "\<dots> = length u - 1"
      using l by (subst backtrack.simps) simp
    finally show ?thesis using False by simp
  qed
next
  case (Suc k)
  have ak: "a ! Suc k \<noteq> CHR ''/''"
    using Suc.prems by (metis nth_mem)
  have "backtrack (u @ a) d (length u + Suc k) = backtrack (u @ a) d (length u + k)"
    using Suc.prems ak by (subst backtrack.simps) (simp add: nth_append)
  with Suc show ?case by simp
qed

lemma strings_Join_append:
  "strings_Join (xs @ ys) sep =
     (if xs = [] then strings_Join ys sep
      else if ys = [] then strings_Join xs sep
      else strings_Join xs sep @ sep @ strings_Join ys sep)"
  by (induction xs sep rule: strings_Join.induct) (auto simp: strings_Join_Cons)

lemma takeWhile_isDotDot_snoc:
  "e \<noteq> ''..'' \<Longrightarrow> takeWhile isDotDot (st @ [e]) = takeWhile isDotDot st"
  by (induction st) auto

lemma dropWhile_isDotDot_snoc:
  "e \<noteq> ''..'' \<Longrightarrow> dropWhile isDotDot (st @ [e]) = dropWhile isDotDot st @ [e]"
  by (induction st) auto

lemma mark_snoc: "e \<noteq> ''..'' \<Longrightarrow> mark r (st @ [e]) = mark r st"
  by (simp add: mark_def takeWhile_isDotDot_snoc)

lemma length_strings_Join_prefix:
  "length (strings_Join xs sep) \<le> length (strings_Join (xs @ ys) sep)"
  by (simp add: strings_Join_append)

lemma length_strings_Join_strict:
  "strings_Join ys sep \<noteq> [] \<Longrightarrow>
   length (strings_Join xs sep) < length (strings_Join (xs @ ys) sep)"
  by (cases "ys = []") (auto simp: strings_Join_append)

lemma mark_le: "mark False st \<le> length (render False st)"
  using length_strings_Join_prefix [of "takeWhile isDotDot st" "''/''" "dropWhile isDotDot st"]
  by (simp add: mark_def render_def)

lemma dotdots_only:
  "''..'' \<notin> set (dropWhile isDotDot st) \<Longrightarrow> st = [] \<or> last st = ''..''
     \<Longrightarrow> dropWhile isDotDot st = []"
proof (rule ccontr)
  assume a: "''..'' \<notin> set (dropWhile isDotDot st)" and b: "st = [] \<or> last st = ''..''"
    and c: "dropWhile isDotDot st \<noteq> []"
  have "st = takeWhile isDotDot st @ dropWhile isDotDot st" by simp
  then have "last st = last (dropWhile isDotDot st)"
    using c by (metis last_appendR)
  with a b c show False
    by (metis last_in_set dropWhile.simps(1))
qed

lemma can_backtrack_iff:
  assumes "wellformed r st"
  shows "mark r st < length (render r st) \<longleftrightarrow> st \<noteq> [] \<and> last st \<noteq> ''..''"
proof (cases r)
  case True
  with assms have ok: "list_all okSeg st" and nd: "''..'' \<notin> set st"
    by (auto simp: wellformed_def)
  from nd have "st \<noteq> [] \<Longrightarrow> last st \<noteq> ''..''"
    by (metis last_in_set)
  then show ?thesis
    using True strings_Join_empty_iff [OF ok] by (auto simp: mark_def render_def)
next
  case False
  with assms have ok: "list_all okSeg st" and nd: "''..'' \<notin> set (dropWhile isDotDot st)"
    by (auto simp: wellformed_def)
  have split: "st = takeWhile isDotDot st @ dropWhile isDotDot st" by simp
  show ?thesis
  proof (cases "dropWhile isDotDot st = []")
    case True
    then have all: "takeWhile isDotDot st = st"
      using split by (metis append_Nil2)
    have "st \<noteq> [] \<Longrightarrow> last st = ''..''"
    proof -
      assume "st \<noteq> []"
      then have "last st \<in> set st" by simp
      then have "last st \<in> set (takeWhile isDotDot st)"
        by (simp only: all)
      then show ?thesis by (rule set_takeWhileD [THEN conjunct2])
    qed
    moreover have "mark False st = length (render False st)"
      by (simp only: mark_def render_def all if_False)
    ultimately show ?thesis
      using False by auto
  next
    case d: False
    then have ne: "st \<noteq> []" by auto
    have "last st = last (dropWhile isDotDot st)"
      using d split by (metis last_appendR)
    then have l: "last st \<noteq> ''..''"
      using nd d by (metis last_in_set)
    have okd: "list_all okSeg (dropWhile isDotDot st)"
      using ok by (metis list_all_append split)
    have "strings_Join (dropWhile isDotDot st) ''/'' \<noteq> []"
      using strings_Join_empty_iff [OF okd] d by simp
    then have "length (strings_Join (takeWhile isDotDot st) ''/'')
        < length (strings_Join (takeWhile isDotDot st @ dropWhile isDotDot st) ''/'')"
      by (rule length_strings_Join_strict)
    then have "mark False st < length (render False st)"
      by (simp only: mark_def render_def takeWhile_dropWhile_id if_False)
    then show ?thesis
      using False ne l by simp
  qed
qed

lemma render_pop:
  assumes wf: "wellformed r (st @ [a])" and a: "a \<noteq> ''..''"
  shows "take (backtrack (render r (st @ [a])) (mark r (st @ [a])) (length (render r (st @ [a])) - 1))
           (render r (st @ [a])) = render r st"
proof -
  from wf have ok: "list_all okSeg st" and oka: "okSeg a"
    by (auto simp: wellformed_def)
  define u where "u = (if st = [] then render r [] else render r st @ ''/'')"
  have out: "render r (st @ [a]) = u @ a"
    using ok by (simp add: render_snoc u_def)
  have a1: "CHR ''/'' \<notin> set a" and a2: "length a - 1 < length a"
    using oka by (auto simp: okSeg_def)
  have m: "mark r (st @ [a]) = mark r st"
    using a by (rule mark_snoc)
  have idx: "length (u @ a) - 1 = length u + (length a - 1)"
    using a2 by simp
  have d: "mark r st \<le> length u"
    using mark_le [of st] by (cases r) (auto simp: u_def mark_def render_def)
  have c: "length u = mark r st \<or> (u \<noteq> [] \<and> last u = CHR ''/'' \<and> mark r st < length u)"
  proof (cases "st = []")
    case True
    then show ?thesis by (cases r) (auto simp: u_def mark_def render_def)
  next
    case False
    have "mark r st < length u"
      using mark_le [of st] False by (cases r) (auto simp: u_def mark_def render_def)
    then show ?thesis
      using False by (auto simp: u_def)
  qed
  have "backtrack (u @ a) (mark r st) (length u + (length a - 1))
          = (if length u = mark r st then mark r st else length u - 1)"
    using a1 a2 d c by (rule backtrack_in_element)
  also have "\<dots> = length (render r st)"
  proof (cases "st = []")
    case True
    then show ?thesis by (cases r) (auto simp: u_def mark_def render_def)
  next
    case False
    have "mark r st < length u"
      using mark_le [of st] False by (cases r) (auto simp: u_def mark_def render_def)
    then show ?thesis
      using False by (auto simp: u_def)
  qed
  finally have "backtrack (u @ a) (mark r st) (length (u @ a) - 1) = length (render r st)"
    by (simp only: idx)
  moreover have "take (length (render r st)) (u @ a) = render r st"
    by (cases "st = []") (auto simp: u_def)
  ultimately show ?thesis
    by (simp only: out m)
qed

lemma render_push:
  assumes ok: "list_all okSeg st"
  shows "(if r \<and> length (render r st) \<noteq> 1 \<or> \<not> r \<and> length (render r st) \<noteq> 0
          then render r st @ ''/'' else render r st) @ e = render r (st @ [e])"
  using strings_Join_empty_iff [OF ok]
  by (cases "st = []") (auto simp: render_def strings_Join_snoc)

lemma render_push_dotdot:
  assumes ok: "list_all okSeg st"
  shows "(if length (render False st) > 0 then render False st @ ''/'' else render False st) @ ''..''
           = render False (st @ [''..''])"
  using strings_Join_empty_iff [OF ok]
  by (cases "st = []") (auto simp: render_def strings_Join_snoc)

lemma mark_push_dotdot:
  assumes "dropWhile isDotDot st = []"
  shows "mark False (st @ [''..'']) = length (render False (st @ [''..'']))"
proof -
  have "takeWhile isDotDot st = st"
    using assms by (metis append_Nil2 takeWhile_dropWhile_id)
  then have "takeWhile isDotDot (st @ [''..'']) = st @ [''..'']"
    by (simp add: takeWhile_append2 takeWhile_eq_all_conv)
  then show ?thesis
    by (simp only: mark_def render_def if_False)
qed

lemma wellformed_step:
  assumes wf: "wellformed r st" and e: "e = [] \<or> okSeg e"
  shows "wellformed r (step r st e)"
proof -
  from wf have ok: "list_all okSeg st" by (simp add: wellformed_def)
  consider "e = [] \<or> e = ''.''" | "e = ''..''" "st \<noteq> [] \<and> last st \<noteq> ''..''"
    | "e = ''..''" "\<not> (st \<noteq> [] \<and> last st \<noteq> ''..'')" | "e \<noteq> []" "e \<noteq> ''.''" "e \<noteq> ''..''"
    by blast
  then show ?thesis
  proof cases
    case 1
    then show ?thesis using wf by (auto simp: step_def)
  next
    case 2
    then obtain st' a where st: "st = st' @ [a]" and a: "a \<noteq> ''..''"
      by (metis append_butlast_last_id)
    have "wellformed r st'"
      using wf a unfolding st wellformed_def
      by (cases r) (auto simp: dropWhile_isDotDot_snoc)
    then show ?thesis
      using 2 st by (simp add: step_def)
  next
    case 3
    show ?thesis
    proof (cases r)
      case True
      then show ?thesis using 3 wf by (auto simp: step_def)
    next
      case False
      have nd: "''..'' \<notin> set (dropWhile isDotDot st)"
        using wf False by (simp add: wellformed_def)
      have "dropWhile isDotDot st = []"
        using nd 3(2) by (intro dotdots_only) auto
      then have "dropWhile isDotDot (st @ [''..'']) = []"
        by (simp add: dropWhile_append)
      then have "''..'' \<notin> set (dropWhile isDotDot (st @ [''..'']))"
        by (simp only: set_simps empty_iff not_False_eq_True)
      moreover have "list_all okSeg (st @ [''..''])"
        using ok by (simp add: okSeg_def)
      ultimately have "wellformed False (st @ [''..''])"
        by (simp only: wellformed_def if_False simp_thms)
      moreover have "step r st e = st @ [''..'']"
        using False 3 by (auto simp: step_def)
      ultimately show ?thesis
        using False by simp
    qed
  next
    case 4
    with e have oke: "okSeg e" by simp
    have "wellformed r (st @ [e])"
      using wf 4 oke unfolding wellformed_def
      by (cases r) (auto simp: dropWhile_isDotDot_snoc)
    then show ?thesis
      using 4 by (simp add: step_def)
  qed
qed


subsubsection \<open>\<^verbatim>\<open>Clean\<close> computes the lexical stack\<close>

lemma dot_shape:
  "c \<noteq> CHR ''/'' \<Longrightarrow>
   (c = CHR ''.'' \<and> (cs = [] \<or> take 1 cs = ''/'')) = (takeWhile notSep (c # cs) = ''.'')"
  by (cases cs) auto

lemma dot_rest:
  "takeWhile notSep (c # cs) = ''.'' \<Longrightarrow> dropWhile notSep (c # cs) = cs"
  by (cases cs) (auto split: if_splits)

lemma dotdot_shape:
  "c \<noteq> CHR ''/'' \<Longrightarrow>
   (c = CHR ''.'' \<and> take 1 cs = ''.'' \<and> (drop 1 cs = [] \<or> take 1 (drop 1 cs) = ''/''))
     = (takeWhile notSep (c # cs) = ''..'')"
proof (cases cs)
  case Nil
  then show ?thesis by auto
next
  case (Cons d ds)
  then show ?thesis by (cases ds) auto
qed

lemma dotdot_rest:
  assumes "takeWhile notSep (c # cs) = ''..''"
  shows "dropWhile notSep (c # cs) = drop 1 cs"
proof (cases cs)
  case Nil
  with assms show ?thesis by (auto split: if_splits)
next
  case (Cons d ds)
  with assms show ?thesis by (cases ds) (auto split: if_splits)
qed

lemma okSeg_takeWhile: "c \<noteq> CHR ''/'' \<Longrightarrow> okSeg (takeWhile notSep (c # cs))"
  by (auto simp: okSeg_def dest: set_takeWhileD)

lemma cleanLoop_dot:
  assumes "c \<noteq> CHR ''/''" "c = CHR ''.'' \<and> (cs = [] \<or> take 1 cs = ''/'')"
  shows "cleanLoop r (c # cs) out d = cleanLoop r cs out d"
  by (subst cleanLoop.simps) (simp only: if_not_P [OF assms(1)] if_P [OF assms(2)])

lemma cleanLoop_dotdot:
  assumes "c \<noteq> CHR ''/''" "\<not> (c = CHR ''.'' \<and> (cs = [] \<or> take 1 cs = ''/''))"
    "c = CHR ''.'' \<and> take 1 cs = ''.'' \<and> (drop 1 cs = [] \<or> take 1 (drop 1 cs) = ''/'')"
  shows "cleanLoop r (c # cs) out d =
     (if length out > d
      then cleanLoop r (drop 1 cs) (take (backtrack out d (length out - 1)) out) d
      else if \<not> r
      then cleanLoop r (drop 1 cs) ((if length out > 0 then out @ ''/'' else out) @ ''..'')
             (length ((if length out > 0 then out @ ''/'' else out) @ ''..''))
      else cleanLoop r (drop 1 cs) out d)"
  by (subst cleanLoop.simps)
     (simp only: if_not_P [OF assms(1)] if_not_P [OF assms(2)] if_P [OF assms(3)] Let_def)

lemma cleanLoop_name:
  assumes "c \<noteq> CHR ''/''" "\<not> (c = CHR ''.'' \<and> (cs = [] \<or> take 1 cs = ''/''))"
    "\<not> (c = CHR ''.'' \<and> take 1 cs = ''.'' \<and> (drop 1 cs = [] \<or> take 1 (drop 1 cs) = ''/''))"
  shows "cleanLoop r (c # cs) out d =
     cleanLoop r (dropWhile notSep (c # cs))
       ((if r \<and> length out \<noteq> 1 \<or> \<not> r \<and> length out \<noteq> 0 then out @ ''/'' else out)
          @ takeWhile notSep (c # cs)) d"
  by (subst cleanLoop.simps)
     (simp only: if_not_P [OF assms(1)] if_not_P [OF assms(2)] if_not_P [OF assms(3)] Let_def)

lemma cleanLoop_element:
  assumes wf: "wellformed r st" and c: "c \<noteq> CHR ''/''"
  shows "cleanLoop r (c # cs) (render r st) (mark r st)
         = cleanLoop r (dropWhile notSep (c # cs))
             (render r (step r st (takeWhile notSep (c # cs))))
             (mark r (step r st (takeWhile notSep (c # cs))))"
proof -
  define e where "e = takeWhile notSep (c # cs)"
  from wf have ok: "list_all okSeg st" by (simp add: wellformed_def)
  have oke: "okSeg e" unfolding e_def using c by (rule okSeg_takeWhile)
  then have ne: "e \<noteq> []" by (simp add: okSeg_def)
  consider "e = ''.''" | "e = ''..''" | "e \<noteq> ''.''" "e \<noteq> ''..''" by blast
  then show ?thesis
  proof cases
    case 1
    then have d: "c = CHR ''.'' \<and> (cs = [] \<or> take 1 cs = ''/'')"
      using dot_shape [OF c, of cs] by (simp add: e_def)
    have rest: "dropWhile notSep (c # cs) = cs"
      using 1 unfolding e_def by (rule dot_rest)
    have s: "step r st e = st" using 1 by (simp add: step_def)
    have "cleanLoop r (c # cs) (render r st) (mark r st) = cleanLoop r cs (render r st) (mark r st)"
      using c d by (rule cleanLoop_dot)
    then show ?thesis
      by (simp only: rest s e_def [symmetric])
  next
    case 2
    have nd: "\<not> (c = CHR ''.'' \<and> (cs = [] \<or> take 1 cs = ''/''))"
      using dot_shape [OF c, of cs] 2 by (simp add: e_def)
    have dd: "c = CHR ''.'' \<and> take 1 cs = ''.'' \<and> (drop 1 cs = [] \<or> take 1 (drop 1 cs) = ''/'')"
      using dotdot_shape [OF c, of cs] 2 by (simp add: e_def)
    have rest: "dropWhile notSep (c # cs) = drop 1 cs"
      using 2 unfolding e_def by (rule dotdot_rest)
    show ?thesis
    proof (cases "st \<noteq> [] \<and> last st \<noteq> ''..''")
      case True
      then obtain st' a where st: "st = st' @ [a]" and a: "a \<noteq> ''..''"
        by (metis append_butlast_last_id)
      have s: "step r st e = st'"
        using 2 True st by (simp add: step_def)
      have can: "mark r st < length (render r st)"
        using can_backtrack_iff [OF wf] True by simp
      have pop: "take (backtrack (render r st) (mark r st) (length (render r st) - 1)) (render r st)
                  = render r st'"
        using render_pop [of r st' a] wf a by (simp add: st)
      have m: "mark r st = mark r st'"
        unfolding st using a by (rule mark_snoc)
      have "cleanLoop r (c # cs) (render r st) (mark r st)
            = cleanLoop r (drop 1 cs)
                (take (backtrack (render r st) (mark r st) (length (render r st) - 1)) (render r st))
                (mark r st)"
        using can by (simp only: cleanLoop_dotdot [OF c nd dd] if_True)
      then have "cleanLoop r (c # cs) (render r st) (mark r st)
            = cleanLoop r (drop 1 cs) (render r st') (mark r st)"
        by (simp only: pop)
      then show ?thesis
        by (simp only: rest s e_def [symmetric] m)
    next
      case False
      have cannot: "\<not> mark r st < length (render r st)"
        using can_backtrack_iff [OF wf] False by simp
      show ?thesis
      proof (cases r)
        case True
        have s: "step r st e = st"
          using 2 False True by (auto simp: step_def)
        have "cleanLoop r (c # cs) (render r st) (mark r st)
              = cleanLoop r (drop 1 cs) (render r st) (mark r st)"
          using cannot True by (simp only: cleanLoop_dotdot [OF c nd dd] if_False simp_thms)
        then show ?thesis
          by (simp only: rest s e_def [symmetric])
      next
        case nr: False
        have s: "step False st e = st @ [''..'']"
          using 2 False by (auto simp: step_def)
        have nd': "''..'' \<notin> set (dropWhile isDotDot st)"
          using wf nr by (simp add: wellformed_def)
        have only: "dropWhile isDotDot st = []"
          using nd' False by (intro dotdots_only) auto
        have out': "(if length (render False st) > 0 then render False st @ ''/'' else render False st) @ ''..''
                     = render False (st @ [''..''])"
          using ok by (rule render_push_dotdot)
        have m': "length (render False (st @ [''..''])) = mark False (st @ [''..''])"
          using mark_push_dotdot [OF only] by simp
        have "cleanLoop r (c # cs) (render r st) (mark r st)
              = cleanLoop r (drop 1 cs)
                  ((if length (render r st) > 0 then render r st @ ''/'' else render r st) @ ''..'')
                  (length ((if length (render r st) > 0 then render r st @ ''/'' else render r st) @ ''..''))"
          using cannot nr by (simp only: cleanLoop_dotdot [OF c nd dd] if_True if_False simp_thms)
        then show ?thesis
          using nr by (simp only: out' m' rest s e_def [symmetric])
      qed
    qed
  next
    case 3
    have nd: "\<not> (c = CHR ''.'' \<and> (cs = [] \<or> take 1 cs = ''/''))"
      using dot_shape [OF c, of cs] 3 by (simp add: e_def)
    have ndd: "\<not> (c = CHR ''.'' \<and> take 1 cs = ''.'' \<and> (drop 1 cs = [] \<or> take 1 (drop 1 cs) = ''/''))"
      using dotdot_shape [OF c, of cs] 3 by (simp add: e_def)
    have s: "step r st e = st @ [e]"
      using 3 ne by (simp add: step_def)
    have m: "mark r (st @ [e]) = mark r st"
      using 3(2) by (rule mark_snoc)
    have push: "(if r \<and> length (render r st) \<noteq> 1 \<or> \<not> r \<and> length (render r st) \<noteq> 0
                 then render r st @ ''/'' else render r st) @ e = render r (st @ [e])"
      using ok by (rule render_push)
    have "cleanLoop r (c # cs) (render r st) (mark r st)
          = cleanLoop r (dropWhile notSep (c # cs))
              ((if r \<and> length (render r st) \<noteq> 1 \<or> \<not> r \<and> length (render r st) \<noteq> 0
                then render r st @ ''/'' else render r st) @ takeWhile notSep (c # cs))
              (mark r st)"
      using c nd ndd by (rule cleanLoop_name)
    then show ?thesis
      by (simp only: e_def [symmetric] push s m)
  qed
qed

lemma cleanLoop_lexical:
  "wellformed r st \<Longrightarrow>
   cleanLoop r p (render r st) (mark r st) = render r (foldl (step r) st (segments p))"
proof (induction "length p" arbitrary: p st rule: less_induct)
  case less
  show ?case
  proof (cases p)
    case Nil
    then show ?thesis
      by (simp add: cleanLoop.simps)
  next
    case (Cons c cs)
    show ?thesis
    proof (cases "c = CHR ''/''")
      case True
      have "cleanLoop r (c # cs) (render r st) (mark r st) = cleanLoop r cs (render r st) (mark r st)"
        using True by (subst cleanLoop.simps) simp
      also have "\<dots> = render r (foldl (step r) st (segments cs))"
        using less.prems Cons by (intro less.hyps) simp_all
      finally show ?thesis
        using True Cons by simp
    next
      case False
      define e where "e = takeWhile notSep (c # cs)"
      have wf': "wellformed r (step r st e)"
        using less.prems okSeg_takeWhile [OF False, of cs] by (intro wellformed_step) (simp_all add: e_def)
      have shorter: "length (dropWhile notSep (c # cs)) < length p"
        using False Cons length_dropWhile_le [of notSep cs] by simp
      have "cleanLoop r (c # cs) (render r st) (mark r st)
            = cleanLoop r (dropWhile notSep (c # cs)) (render r (step r st e)) (mark r (step r st e))"
        unfolding e_def using less.prems False by (rule cleanLoop_element)
      also have "\<dots> = render r (foldl (step r) (step r st e) (segments (dropWhile notSep (c # cs))))"
        using shorter wf' by (rule less.hyps)
      also have "\<dots> = render r (foldl (step r) st (segments (c # cs)))"
        unfolding e_def by (simp only: foldl_step_segments [of r st "c # cs"])
      finally show ?thesis
        using Cons by simp
    qed
  qed
qed

lemma segments_no_sep: "e \<in> set (segments p) \<Longrightarrow> CHR ''/'' \<notin> set e"
proof (induction p arbitrary: e)
  case Nil
  then show ?case by simp
next
  case (Cons c cs)
  then show ?case
    by (cases "segments cs") (auto split: if_splits)
qed

lemma segments_ok: "e \<in> set (segments p) \<Longrightarrow> e = [] \<or> okSeg e"
  using segments_no_sep [of e p] by (auto simp: okSeg_def)

lemma wellformed_foldl:
  "wellformed r st \<Longrightarrow> (\<And>e. e \<in> set segs \<Longrightarrow> e = [] \<or> okSeg e)
     \<Longrightarrow> wellformed r (foldl (step r) st segs)"
proof (induction segs arbitrary: st)
  case Nil
  then show ?case by simp
next
  case (Cons e segs)
  have "wellformed r (step r st e)"
    using Cons.prems by (intro wellformed_step) auto
  then show ?case
    using Cons.prems by (auto intro: Cons.IH)
qed

lemma wellformed_empty [simp]: "wellformed r []"
  by (simp add: wellformed_def)

lemma wellformed_lexical: "wellformed r (lexical r p)"
  unfolding lexical_def by (rule wellformed_foldl) (auto dest: segments_ok)

lemma render_empty [simp]: "render True [] = ''/''" "render False [] = []" "mark True [] = 1" "mark False [] = 0"
  by (simp_all add: render_def mark_def)

lemma lexical_rooted_Cons: "lexical r (CHR ''/'' # p) = lexical r p"
  by (simp add: lexical_def)

lemma Clean_lexical:
  "filepath_Clean p =
     (if p = [] then ''.''
      else if take 1 p = ''/'' then ''/'' @ strings_Join (lexical True p) ''/''
      else if lexical False p = [] then ''.''
      else strings_Join (lexical False p) ''/'')"
proof (cases p)
  case Nil
  then show ?thesis by (simp add: filepath_Clean_def)
next
  case (Cons c cs)
  show ?thesis
  proof (cases "c = CHR ''/''")
    case True
    have "cleanLoop True cs (render True []) (mark True []) = render True (foldl (step True) [] (segments cs))"
      by (rule cleanLoop_lexical) simp
    then have "cleanLoop True cs ''/'' 1 = ''/'' @ strings_Join (lexical True cs) ''/''"
      by (simp add: lexical_def render_def)
    then show ?thesis
      using True Cons by (simp add: filepath_Clean_def lexical_rooted_Cons)
  next
    case False
    have "cleanLoop False p (render False []) (mark False []) = render False (foldl (step False) [] (segments p))"
      by (rule cleanLoop_lexical) simp
    then have c: "cleanLoop False p [] 0 = strings_Join (lexical False p) ''/''"
      by (simp add: lexical_def render_def)
    have "list_all okSeg (lexical False p)"
      using wellformed_lexical [of False p] by (simp add: wellformed_def)
    then have e: "strings_Join (lexical False p) ''/'' = [] \<longleftrightarrow> lexical False p = []"
      by (rule strings_Join_empty_iff)
    show ?thesis
      using False Cons c e by (simp add: filepath_Clean_def)
  qed
qed


subsubsection \<open>Stacks of names\<close>

lemma step_keeps_names:
  "list_all (\<lambda>a. okSeg a \<and> a \<noteq> ''.'') st \<Longrightarrow> e = [] \<or> okSeg e
     \<Longrightarrow> list_all (\<lambda>a. okSeg a \<and> a \<noteq> ''.'') (step r st e)"
  by (auto simp: step_def okSeg_def list_all_iff dest: in_set_butlastD)

lemma foldl_keeps_names:
  "list_all (\<lambda>a. okSeg a \<and> a \<noteq> ''.'') st \<Longrightarrow> (\<And>e. e \<in> set segs \<Longrightarrow> e = [] \<or> okSeg e)
     \<Longrightarrow> list_all (\<lambda>a. okSeg a \<and> a \<noteq> ''.'') (foldl (step r) st segs)"
proof (induction segs arbitrary: st)
  case Nil
  then show ?case by simp
next
  case (Cons e segs)
  have "list_all (\<lambda>a. okSeg a \<and> a \<noteq> ''.'') (step r st e)"
    using Cons.prems by (intro step_keeps_names) auto
  then show ?case
    using Cons.prems by (auto intro: Cons.IH)
qed

lemma lexical_plain:
  "''..'' \<notin> set (lexical r p) \<Longrightarrow> list_all plain (lexical r p)"
proof -
  assume nd: "''..'' \<notin> set (lexical r p)"
  have "list_all (\<lambda>a. okSeg a \<and> a \<noteq> ''.'') (lexical r p)"
    unfolding lexical_def by (rule foldl_keeps_names) (auto dest: segments_ok)
  with nd show ?thesis
    by (auto simp: list_all_iff plain_def)
qed

lemma lexical_rooted_no_dotdot: "''..'' \<notin> set (lexical True p)"
  using wellformed_lexical [of True p] by (simp add: wellformed_def)

lemma foldl_step_plain: "list_all plain Q \<Longrightarrow> foldl (step r) st Q = st @ Q"
  by (induction Q arbitrary: st) (auto simp: step_def plain_def okSeg_def)

lemma segments_plain_element:
  "okSeg a \<Longrightarrow> segments a = [a]"
proof -
  assume "okSeg a"
  then have "takeWhile notSep a = a" "dropWhile notSep a = []"
    by (auto simp: okSeg_def takeWhile_eq_all_conv)
  then show ?thesis
    by (subst segments_unfold) (simp only: list.case)
qed

lemma segments_strings_Join:
  "list_all okSeg Q \<Longrightarrow> Q \<noteq> [] \<Longrightarrow> segments (strings_Join Q ''/'') = Q"
proof (induction Q)
  case Nil
  then show ?case by simp
next
  case (Cons a Q)
  show ?case
  proof (cases "Q = []")
    case True
    then show ?thesis using Cons.prems by (simp add: segments_plain_element)
  next
    case False
    have "segments (a @ CHR ''/'' # strings_Join Q ''/'') = segments a @ segments (strings_Join Q ''/'')"
      by (rule segments_append_sep)
    then show ?thesis
      using False Cons by (simp add: strings_Join_Cons segments_plain_element)
  qed
qed

lemma dotdot_stays:
  "''..'' \<in> set st \<Longrightarrow> ''..'' \<in> set (step False st e)"
proof -
  assume a: "''..'' \<in> set st"
  have "st \<noteq> [] \<Longrightarrow> last st \<noteq> ''..'' \<Longrightarrow> ''..'' \<in> set (butlast st)"
  proof -
    assume "st \<noteq> []" "last st \<noteq> ''..''"
    then have "st = butlast st @ [last st]" by simp
    then have "set st = set (butlast st) \<union> {last st}"
      by (metis list.simps(15) set_append empty_set Un_insert_right sup_bot.right_neutral)
    with a \<open>last st \<noteq> ''..''\<close> show ?thesis by auto
  qed
  with a show ?thesis
    by (auto simp: step_def)
qed

lemma dotdot_stays_foldl:
  "''..'' \<in> set st \<Longrightarrow> ''..'' \<in> set (foldl (step False) st segs)"
  by (induction segs arbitrary: st) (auto intro: dotdot_stays)

lemma foldl_step_above:
  "''..'' \<notin> set (foldl (step False) st segs)
     \<Longrightarrow> foldl (step r) (M @ st) segs = M @ foldl (step False) st segs"
proof (induction segs arbitrary: st)
  case Nil
  then show ?case by simp
next
  case (Cons e segs)
  have nd: "''..'' \<notin> set (step False st e)"
    using Cons.prems dotdot_stays_foldl [of "step False st e" segs] by auto
  have "step r (M @ st) e = M @ step False st e"
  proof (cases "e = ''..'' \<and> \<not> (st \<noteq> [] \<and> last st \<noteq> ''..'')")
    case True
    then have "step False st e = st @ [''..'']"
      by (auto simp: step_def)
    with nd show ?thesis by simp
  next
    case False
    then show ?thesis
      by (auto simp: step_def butlast_append)
  qed
  then show ?case
    using Cons by simp
qed


subsubsection \<open>\<^verbatim>\<open>Rel\<close> below the base path\<close>

lemma okSeg_whole:
  assumes "okSeg a"
  shows "takeWhile notSep a = a" "dropWhile notSep a = []"
    "takeWhile notSep (a @ CHR ''/'' # rest) = a"
    "dropWhile notSep (a @ CHR ''/'' # rest) = CHR ''/'' # rest"
proof -
  from assms have all: "\<forall>x\<in>set a. notSep x"
    by (auto simp: okSeg_def)
  then show "takeWhile notSep a = a"
    by (simp only: takeWhile_eq_all_conv)
  from all show "dropWhile notSep a = []"
    by (simp only: dropWhile_eq_Nil_conv)
  have "takeWhile notSep (a @ CHR ''/'' # rest) = takeWhile notSep a"
    by (rule takeWhile_tail) simp
  with \<open>takeWhile notSep a = a\<close> show "takeWhile notSep (a @ CHR ''/'' # rest) = a"
    by (simp only:)
  from all show "dropWhile notSep (a @ CHR ''/'' # rest) = CHR ''/'' # rest"
    by (simp add: dropWhile_append2)
qed

lemma takeWhile_strings_Join:
  "okSeg a \<Longrightarrow> takeWhile notSep (strings_Join (a # Q) ''/'') = a"
  by (cases "Q = []") (simp_all add: strings_Join_Cons okSeg_whole del: takeWhile_eq_all_conv)

lemma dropWhile_strings_Join:
  "okSeg a \<Longrightarrow> drop 1 (dropWhile notSep (strings_Join (a # Q) ''/'')) = strings_Join Q ''/''"
  by (cases "Q = []") (simp_all add: strings_Join_Cons okSeg_whole del: dropWhile_eq_Nil_conv)

lemma strings_Join_nonempty:
  "list_all okSeg Q \<Longrightarrow> Q \<noteq> [] \<Longrightarrow> strings_Join Q ''/'' \<noteq> []"
  using strings_Join_empty_iff by blast

lemma relLoop_prefix:
  "list_all okSeg M \<Longrightarrow> list_all okSeg Q \<Longrightarrow> Q \<noteq> [] \<Longrightarrow>
   relLoop (strings_Join M ''/'') (strings_Join (M @ Q) ''/'') = ([], strings_Join Q ''/'', [])"
proof (induction M)
  case Nil
  show ?case by (subst relLoop.simps) simp
next
  case (Cons a M)
  then have a: "okSeg a" and okM: "list_all okSeg M" by simp_all
  have b: "strings_Join (a # M) ''/'' \<noteq> []"
    using Cons.prems by (intro strings_Join_nonempty) simp_all
  have t: "strings_Join (a # M @ Q) ''/'' \<noteq> []"
    using Cons.prems by (intro strings_Join_nonempty) simp_all
  have "relLoop (strings_Join (a # M) ''/'') (strings_Join (a # M @ Q) ''/'')
        = relLoop (drop 1 (dropWhile notSep (strings_Join (a # M) ''/'')))
                  (drop 1 (dropWhile notSep (strings_Join (a # M @ Q) ''/'')))"
    using b t by (subst relLoop.simps) (simp only: takeWhile_strings_Join [OF a] simp_thms if_True if_False)
  also have "\<dots> = relLoop (strings_Join M ''/'') (strings_Join (M @ Q) ''/'')"
    by (simp only: dropWhile_strings_Join [OF a])
  also have "\<dots> = ([], strings_Join Q ''/'', [])"
    using okM Cons.prems by (intro Cons.IH) simp_all
  finally show ?case by simp
qed

lemma relLoop_prefix_rooted:
  assumes "list_all okSeg M" "list_all okSeg Q" "Q \<noteq> []"
  shows "relLoop (''/'' @ strings_Join M ''/'') (''/'' @ strings_Join (M @ Q) ''/'')
           = ([], strings_Join Q ''/'', [])"
proof -
  have "relLoop (''/'' @ strings_Join M ''/'') (''/'' @ strings_Join (M @ Q) ''/'')
        = relLoop (strings_Join M ''/'') (strings_Join (M @ Q) ''/'')"
    by (subst relLoop.simps) simp
  also have "\<dots> = ([], strings_Join Q ''/'', [])"
    using assms by (rule relLoop_prefix)
  finally show ?thesis .
qed

lemma strings_Join_longer:
  assumes "list_all okSeg Q" "Q \<noteq> []"
  shows "strings_Join (M @ Q) ''/'' \<noteq> strings_Join M ''/''"
proof -
  have "strings_Join Q ''/'' \<noteq> []"
    using assms by (rule strings_Join_nonempty)
  then have "length (strings_Join M ''/'') < length (strings_Join (M @ Q) ''/'')"
    by (rule length_strings_Join_strict)
  then show ?thesis by auto
qed

lemma strings_Join_not_slashed:
  "list_all okSeg Q \<Longrightarrow> take 1 (strings_Join Q ''/'') \<noteq> ''/''"
proof (cases Q)
  case Nil
  then show ?thesis by simp
next
  case (Cons a Q')
  assume "list_all okSeg Q"
  with Cons have "okSeg a" by simp
  then obtain c cs where "a = c # cs" "c \<noteq> CHR ''/''"
    by (cases a) (auto simp: okSeg_def)
  with Cons show ?thesis
    by (cases "Q' = []") (auto simp: strings_Join_Cons)
qed

lemma strings_Join_not_dot:
  "list_all plain Q \<Longrightarrow> strings_Join Q ''/'' \<noteq> ''.''"
proof (cases Q)
  case Nil
  then show ?thesis by simp
next
  case (Cons a Q')
  assume "list_all plain Q"
  with Cons have a: "plain a" by simp
  show ?thesis
  proof (cases "Q' = []")
    case True
    with Cons a show ?thesis by (simp add: plain_def)
  next
    case False
    have "CHR ''/'' \<in> set (strings_Join (a # Q') ''/'')"
      using False by (simp add: strings_Join_Cons)
    then show ?thesis
      using Cons by auto
  qed
qed

lemma plain_ok: "list_all plain Q \<Longrightarrow> list_all okSeg Q"
  by (auto simp: list_all_iff plain_def)

lemma Rel_inside:
  assumes M: "list_all plain M" and Q: "list_all plain Q"
    and b: "filepath_Clean basepath = cleaned r M"
    and t: "filepath_Clean targpath = cleaned r (M @ Q)"
  shows "filepath_Rel basepath targpath = Inr (if Q = [] then ''.'' else strings_Join Q ''/'')"
proof (cases "Q = []")
  case True
  then show ?thesis
    using b t by (simp add: filepath_Rel_def)
next
  case False
  have okM: "list_all okSeg M" and okQ: "list_all okSeg Q"
    using M Q by (auto intro: plain_ok)
  have okMQ: "list_all okSeg (M @ Q)"
    using okM okQ by simp
  have neq: "strings_Join (M @ Q) ''/'' \<noteq> strings_Join M ''/''"
    using okQ False by (rule strings_Join_longer)
  have ne: "strings_Join (M @ Q) ''/'' \<noteq> []"
    using okMQ False by (intro strings_Join_nonempty) simp_all
  show ?thesis
  proof (cases r)
    case True
    have loop: "relLoop (''/'' @ strings_Join M ''/'') (''/'' @ strings_Join (M @ Q) ''/'')
                 = ([], strings_Join Q ''/'', [])"
      using okM okQ False by (rule relLoop_prefix_rooted)
    show ?thesis
      using True False b t neq loop
      by (simp add: filepath_Rel_def cleaned_def Let_def)
  next
    case nr: False
    have loop: "relLoop (strings_Join M ''/'') (strings_Join (M @ Q) ''/'')
                 = ([], strings_Join Q ''/'', [])"
      using okM okQ False by (rule relLoop_prefix)
    have "list_all plain (M @ Q)"
      using M Q by simp
    then have nd: "strings_Join M ''/'' \<noteq> ''.''" "strings_Join (M @ Q) ''/'' \<noteq> ''.''"
      using strings_Join_not_dot [OF M] strings_Join_not_dot [of "M @ Q"] by simp_all
    have ns: "take 1 (strings_Join M ''/'') \<noteq> ''/''" "take 1 (strings_Join (M @ Q) ''/'') \<noteq> ''/''"
      using strings_Join_not_slashed [OF okM] strings_Join_not_slashed [OF okMQ] by simp_all
    show ?thesis
    proof (cases "M = []")
      case True
      have "relLoop [] (strings_Join Q ''/'') = ([], strings_Join Q ''/'', [])"
        by (subst relLoop.simps) simp
      then show ?thesis
        using nr True False b t ns nd
        by (simp add: filepath_Rel_def cleaned_def Let_def)
    next
      case mne: False
      show ?thesis
        using nr mne False b t neq loop ns nd
        by (simp add: filepath_Rel_def cleaned_def Let_def)
    qed
  qed
qed


subsubsection \<open>\<^verbatim>\<open>Join\<close> and \<^verbatim>\<open>ZKPath\<close>\<close>

lemma step_subset: "set (step r st e) \<subseteq> set st \<union> {e}"
  by (auto simp: step_def dest: in_set_butlastD)

lemma foldl_step_subset: "set (foldl (step r) st segs) \<subseteq> set st \<union> set segs"
proof (induction segs arbitrary: st)
  case Nil
  show ?case by simp
next
  case (Cons e segs)
  show ?case
    using Cons.IH [of "step r st e"] step_subset [of r st e] by auto
qed

lemma lexical_no_dotdot: "''..'' \<notin> set (segments m) \<Longrightarrow> ''..'' \<notin> set (lexical r m)"
  using foldl_step_subset [of r "[]" "segments m"] by (auto simp: lexical_def)

lemma Clean_cleaned:
  "p \<noteq> [] \<Longrightarrow> filepath_Clean p = cleaned (take 1 p = ''/'') (lexical (take 1 p = ''/'') p)"
  by (simp add: Clean_lexical cleaned_def)

lemma lexical_append_sep:
  "lexical r (a @ CHR ''/'' # b) = foldl (step r) (lexical r a) (segments b)"
  by (simp add: lexical_def segments_append_sep)

lemma Join_mount:
  assumes m: "m \<noteq> []" and p: "''..'' \<notin> set (lexical False p)"
  shows "filepath_Join [m, p]
           = cleaned (take 1 m = ''/'') (lexical (take 1 m = ''/'') m @ lexical False p)"
proof -
  define r where "r = (take 1 m = ''/'')"
  have t: "(take 1 (m @ CHR ''/'' # p) = ''/'') = r"
    using m by (cases m) (auto simp: r_def)
  have "foldl (step r) (lexical r m @ []) (segments p) = lexical r m @ foldl (step False) [] (segments p)"
    using p unfolding lexical_def by (intro foldl_step_above)
  then have l: "lexical r (m @ CHR ''/'' # p) = lexical r m @ lexical False p"
    by (simp add: lexical_append_sep) (simp add: lexical_def)
  have "filepath_Join [m, p] = filepath_Clean (m @ CHR ''/'' # p)"
    using m by simp
  also have "\<dots> = cleaned r (lexical r (m @ CHR ''/'' # p))"
    using Clean_cleaned [of "m @ CHR ''/'' # p"] by (simp only: t) simp
  finally have "filepath_Join [m, p] = cleaned r (lexical r m @ lexical False p)"
    by (simp only: l)
  then show ?thesis
    by (simp only: r_def)
qed

lemma Join_alias:
  assumes Q: "list_all plain Q"
  shows "filepath_Join [''/'', root, if Q = [] then ''.'' else strings_Join Q ''/'']
           = ''/'' @ strings_Join (lexical True root @ Q) ''/''"
proof -
  define rel where "rel = (if Q = [] then ''.'' else strings_Join Q ''/'')"
  have s: "foldl (step True) st (segments rel) = st @ Q" for st
  proof (cases "Q = []")
    case True
    then show ?thesis by (simp add: rel_def step_def)
  next
    case False
    have "segments (strings_Join Q ''/'') = Q"
      using plain_ok [OF Q] False by (rule segments_strings_Join)
    then show ?thesis
      using False Q by (simp add: rel_def foldl_step_plain)
  qed
  have "lexical True (CHR ''/'' # CHR ''/'' # root @ CHR ''/'' # rel)
          = foldl (step True) (lexical True root) (segments rel)"
    by (simp only: lexical_rooted_Cons lexical_append_sep)
  then have l: "lexical True (CHR ''/'' # CHR ''/'' # root @ CHR ''/'' # rel) = lexical True root @ Q"
    by (simp only: s)
  have "filepath_Join [''/'', root, rel] = filepath_Clean (CHR ''/'' # CHR ''/'' # root @ CHR ''/'' # rel)"
    by simp
  also have "\<dots> = ''/'' @ strings_Join (lexical True (CHR ''/'' # CHR ''/'' # root @ CHR ''/'' # rel)) ''/''"
    by (subst Clean_lexical) simp
  finally have "filepath_Join [''/'', root, rel] = ''/'' @ strings_Join (lexical True root @ Q) ''/''"
    by (simp only: l)
  then show ?thesis
    by (simp only: rel_def)
qed

lemma lexical_strings_Join:
  assumes "list_all plain S"
  shows "lexical r (strings_Join S ''/'') = S"
proof (cases "S = []")
  case True
  then show ?thesis by (simp add: lexical_def)
next
  case False
  have "segments (strings_Join S ''/'') = S"
    using plain_ok [OF assms] False by (rule segments_strings_Join)
  then show ?thesis
    using assms by (simp add: lexical_def foldl_step_plain)
qed

lemma Clean_idem:
  assumes S: "list_all plain S"
  shows "filepath_Clean (cleaned r S) = cleaned r S"
proof (cases r)
  case True
  have "lexical True (CHR ''/'' # strings_Join S ''/'') = S"
    using lexical_strings_Join [OF S] by (simp add: lexical_rooted_Cons)
  then show ?thesis
    using True by (simp add: Clean_lexical cleaned_def)
next
  case False
  show ?thesis
  proof (cases "S = []")
    case True
    have "lexical False ''.'' = []"
      by (simp add: lexical_def step_def)
    then show ?thesis
      using False True by (simp add: Clean_lexical cleaned_def)
  next
    case ne: False
    have a: "strings_Join S ''/'' \<noteq> []"
      using plain_ok [OF S] ne by (rule strings_Join_nonempty)
    have b: "take 1 (strings_Join S ''/'') \<noteq> ''/''"
      using plain_ok [OF S] by (rule strings_Join_not_slashed)
    show ?thesis
      using False ne a b lexical_strings_Join [OF S, of False]
      by (simp add: Clean_lexical cleaned_def)
  qed
qed

text \<open>
  For a mount point that is absolute (or relative, not empty and without a \<open>..\<close>
  segment) and a path that does not climb above its starting point, the translation is
  lexical: \<open>/\<close>, the names of the alias, then the names of the path.
\<close>

lemma ZKPath_lexical:
  assumes "FuseMount z \<noteq> []"
    and "take 1 (FuseMount z) = ''/'' \<or> ''..'' \<notin> set (segments (FuseMount z))"
    and "''..'' \<notin> set (lexical False p)"
  shows "ZKPath z p = ''/'' @ strings_Join (lexical True (ZKRoot z) @ lexical False p) ''/''"
proof -
  define m where "m = FuseMount z"
  define r where "r = (take 1 m = ''/'')"
  define M where "M = lexical r m"
  define Q where "Q = lexical False p"
  have "''..'' \<notin> set M"
  proof (cases r)
    case True
    then show ?thesis
      using lexical_rooted_no_dotdot [of m] by (simp add: M_def)
  next
    case False
    with assms(2) have "''..'' \<notin> set (segments m)"
      by (simp add: r_def m_def)
    then show ?thesis
      unfolding M_def by (rule lexical_no_dotdot)
  qed
  then have M: "list_all plain M"
    unfolding M_def by (rule lexical_plain)
  have Q: "list_all plain Q"
    unfolding Q_def using assms(3) by (rule lexical_plain)
  have base: "filepath_Clean m = cleaned r M"
    using assms(1) by (simp add: Clean_cleaned m_def r_def M_def)
  have targ: "filepath_Join [m, p] = cleaned r (M @ Q)"
    unfolding r_def M_def Q_def using assms(1,3) by (intro Join_mount) (simp_all add: m_def)
  have "list_all plain (M @ Q)"
    using M Q by simp
  then have c: "filepath_Clean (filepath_Join [m, p]) = cleaned r (M @ Q)"
    unfolding targ by (rule Clean_idem)
  have rel: "filepath_Rel m (filepath_Join [m, p]) = Inr (if Q = [] then ''.'' else strings_Join Q ''/'')"
    using M Q base c by (rule Rel_inside)
  have "ZKPath z p = filepath_Join [''/'', ZKRoot z, if Q = [] then ''.'' else strings_Join Q ''/'']"
    unfolding ZKPath_def m_def [symmetric] by (simp only: rel sum.case)
  also have "\<dots> = ''/'' @ strings_Join (lexical True (ZKRoot z) @ Q) ''/''"
    using Q by (rule Join_alias)
  finally show ?thesis
    by (simp only: Q_def)
qed

lemma ZKPath_eval_escape:
  "ZKPath \<lparr>zk = h, ZKRoot = ''/chroot'', FuseMount = ''/mnt/fuse''\<rparr> ''../x'' = ''/x''"
proof -
  have r: "filepath_Rel ''/mnt/fuse'' (filepath_Join [''/mnt/fuse'', ''../x'']) = Inr ''../x''"
    by code_simp
  have j: "filepath_Join [''/'', ''/chroot'', ''../x''] = ''/x''"
    by code_simp
  show ?thesis
    by (simp add: ZKPath_def r j del: filepath_Join.simps)
qed

lemma Join_eval_chroot: "filepath_Join [''/'', ''/chroot''] = ''/chroot''"
  by code_simp

lemma lexical_snoc_plain:
  assumes "plain k"
  shows "lexical False (p @ CHR ''/'' # k) = lexical False p @ [k]"
proof -
  have "segments k = [k]"
    using assms by (intro segments_plain_element) (simp add: plain_def)
  moreover have "foldl (step False) (lexical False p) [k] = lexical False p @ [k]"
    using assms by (intro foldl_step_plain) simp
  ultimately show ?thesis
    by (simp only: lexical_append_sep)
qed

lemma mock_Get: "Get mockZooKeeper p s = (Inl ''mock'', s)"
  by (simp add: mockZooKeeper_def programmed_sel)

lemma gateway_sel:
  "Get (gateway z) p s = Get (zk z) (ZKPath z p) s"
  by (simp add: gateway_def ZooHandle_Get_def)

text \<open>
  C2 (what the code does). With alias \<open>/chroot\<close> and mount point \<open>/mnt/fuse\<close>, the
  path \<open>../x\<close> leaves the mount point. \<^verbatim>\<open>filepath.Rel\<close> reports no error for it, so
  the fallback to the alias root is not taken; the relative path \<open>../x\<close> is joined to
  the alias, and the \<open>..\<close> removes the alias. \<^verbatim>\<open>ZKPath\<close> returns \<open>/x\<close>, a path
  outside the alias, and not the alias root.
\<close>

theorem ZKPath_escapes_alias:
  "filepath_Rel ''/mnt/fuse'' (filepath_Join [''/mnt/fuse'', ''../x'']) = Inr ''../x''
   \<and> ZKPath \<lparr>zk = mockZooKeeper, ZKRoot = ''/chroot'', FuseMount = ''/mnt/fuse''\<rparr> ''../x'' = ''/x''
   \<and> ZKPath \<lparr>zk = mockZooKeeper, ZKRoot = ''/chroot'', FuseMount = ''/mnt/fuse''\<rparr> ''../x''
       \<noteq> filepath_Join [''/'', ''/chroot'']"
proof -
  have "filepath_Rel ''/mnt/fuse'' (filepath_Join [''/mnt/fuse'', ''../x'']) = Inr ''../x''"
    by code_simp
  then show ?thesis
    by (simp add: ZKPath_eval_escape Join_eval_chroot del: filepath_Join.simps)
qed

text \<open>
  C4 (what the code does). For a mount point and a path as in the lemma
  \<open>ZKPath_lexical\<close> and a marker that is a
  name proper (as \<^verbatim>\<open>__znode_data__\<close> is), \<^verbatim>\<open>ZKPath\<close> keeps the marker as the last name
  of the remote path: the path of the marker entry inside \<open>p\<close> is not translated to
  the remote path of \<open>p\<close>, as \<^verbatim>\<open>TestZKPath\<close> expects it to be, and \<^verbatim>\<open>Open\<close> on the
  marker entry asks the wire client for a node named after the marker.
\<close>

theorem ZKPath_keeps_marker:
  "FuseMount z \<noteq> [] \<and> (take 1 (FuseMount z) = ''/'' \<or> ''..'' \<notin> set (segments (FuseMount z)))
      \<and> ''..'' \<notin> set (lexical False p)
     \<and> plain ZNodeMarker
   \<longrightarrow> ZKPath z (p @ ''/'' @ ZNodeMarker)
         = ''/'' @ strings_Join (lexical True (ZKRoot z) @ lexical False p @ [ZNodeMarker]) ''/''
       \<and> ZKPath z (p @ ''/'' @ ZNodeMarker) \<noteq> ZKPath z p"
proof (intro impI)
  assume a: "FuseMount z \<noteq> [] \<and> (take 1 (FuseMount z) = ''/'' \<or> ''..'' \<notin> set (segments (FuseMount z)))
     \<and> ''..'' \<notin> set (lexical False p) \<and> plain ZNodeMarker"
  then have k: "plain ZNodeMarker" by simp
  have l: "lexical False (p @ CHR ''/'' # ZNodeMarker) = lexical False p @ [ZNodeMarker]"
    using k by (rule lexical_snoc_plain)
  have nd: "''..'' \<notin> set (lexical False (p @ ''/'' @ ZNodeMarker))"
    using a by (auto simp: l plain_def)
  have 1: "ZKPath z p = ''/'' @ strings_Join (lexical True (ZKRoot z) @ lexical False p) ''/''"
    using a by (intro ZKPath_lexical) simp_all
  have 2: "ZKPath z (p @ ''/'' @ ZNodeMarker)
        = ''/'' @ strings_Join (lexical True (ZKRoot z) @ lexical False p @ [ZNodeMarker]) ''/''"
    using a nd ZKPath_lexical [of z "p @ ''/'' @ ZNodeMarker"] by (simp add: l)
  have "strings_Join ((lexical True (ZKRoot z) @ lexical False p) @ [ZNodeMarker]) ''/''
          \<noteq> strings_Join (lexical True (ZKRoot z) @ lexical False p) ''/''"
    using k by (intro strings_Join_longer) (simp_all add: plain_def)
  then show "ZKPath z (p @ ''/'' @ ZNodeMarker)
         = ''/'' @ strings_Join (lexical True (ZKRoot z) @ lexical False p @ [ZNodeMarker]) ''/''
       \<and> ZKPath z (p @ ''/'' @ ZNodeMarker) \<noteq> ZKPath z p"
    using 1 2 by simp
qed

theorem ZKPath_keeps_marker_witness:
  "ZKPath \<lparr>zk = mockZooKeeper, ZKRoot = ''/chroot'', FuseMount = ''/mnt/fuse''\<rparr>
       ''test-path/sub-node/__znode_data__'' = ''/chroot/test-path/sub-node/__znode_data__''
   \<and> ZKPath \<lparr>zk = mockZooKeeper, ZKRoot = ''/chroot'', FuseMount = ''/mnt/fuse''\<rparr>
       ''test-path/sub-node/__znode_data__'' \<noteq> ''/chroot/test-path/sub-node''
   \<and> snd (FuseFS_Open 0 zeroOwner
        \<lparr>zh = gateway (observed \<lparr>zk = mockZooKeeper, ZKRoot = ''/chroot'', FuseMount = ''/mnt/fuse''\<rparr>),
         FuseRoot = ''/mnt/fuse'', IsReadWrite = False\<rparr>
        ''test-path/sub-node/__znode_data__'' 0 ((), []))
     = ((), [Call_Get ''/chroot/test-path/sub-node/__znode_data__''])"
proof -
  have w: "ZKPath \<lparr>zk = mockZooKeeper, ZKRoot = ''/chroot'', FuseMount = ''/mnt/fuse''\<rparr>
       ''test-path/sub-node/__znode_data__'' = ''/chroot/test-path/sub-node/__znode_data__''"
    using ZKPath_keeps_marker [of "\<lparr>zk = mockZooKeeper, ZKRoot = ''/chroot'', FuseMount = ''/mnt/fuse''\<rparr>"
        "''test-path/sub-node''" "''__znode_data__''"]
    by (simp add: lexical_def step_def plain_def okSeg_def)
  have o: "ZKPath (observed \<lparr>zk = mockZooKeeper, ZKRoot = ''/chroot'', FuseMount = ''/mnt/fuse''\<rparr>)
       ''test-path/sub-node/__znode_data__'' = ''/chroot/test-path/sub-node/__znode_data__''"
    using w by (simp only: ZKPath_observed)
  have z: "zk (observed \<lparr>zk = mockZooKeeper, ZKRoot = ''/chroot'', FuseMount = ''/mnt/fuse''\<rparr>)
        = recording mockZooKeeper"
    by (simp add: observed_def)
  have g: "Get (gateway (observed \<lparr>zk = mockZooKeeper, ZKRoot = ''/chroot'', FuseMount = ''/mnt/fuse''\<rparr>))
           ''test-path/sub-node/__znode_data__'' s
        = Get (recording mockZooKeeper) ''/chroot/test-path/sub-node/__znode_data__'' s" for s
    by (simp only: gateway_sel o z)
  show ?thesis
    using w by (simp add: FuseFS_Open_def g recording_sel logged_def mock_Get)
qed

end
